theory Spec2Isabelle
  imports Main "HOL-Library.Word"
begin

section \<open>Sequence numbers\<close>

text \<open>
  Modelled from the spec: \<open>ForwardDiff\<close> and \<open>AheadOf\<close> are declared in
  rtc_base/numerics (mod_ops.h, sequence_number_util.h), which is not among the sources.
  The spec asks for 16-bit values with circular-distance semantics, half of the number
  space ahead and half behind. At the maximal distance \<open>0x8000\<close> the larger value is the
  one that is ahead, as in WebRTC's \<open>AheadOrAt\<close>.
\<close>

definition ForwardDiff :: "16 word \<Rightarrow> 16 word \<Rightarrow> 16 word" where
  "ForwardDiff a b = b - a"

definition AheadOrAt :: "16 word \<Rightarrow> 16 word \<Rightarrow> bool" where
  "AheadOrAt a b = (if a - b = 0x8000 then b < a else ForwardDiff b a < 0x8000)"

definition AheadOf :: "16 word \<Rightarrow> 16 word \<Rightarrow> bool" where
  "AheadOf a b = (a \<noteq> b \<and> AheadOrAt a b)"

section \<open>Data model\<close>

datatype error = DivisionByZero | NullDeref | CheckFailed | BadRead

datatype VideoCodecType =
  kVideoCodecGeneric | kVideoCodecVP8 | kVideoCodecVP9 | kVideoCodecH264 | kVideoCodecMultiplex

datatype VideoFrameType = kEmptyFrame | kVideoFrameKey | kVideoFrameDelta

datatype NaluType =
  kSlice | kIdr | kSei | kSps | kPps | kAud | kEndOfSequence | kEndOfStream | kFiller
  | kStapA | kFuA

text \<open>
  \<open>RTPVideoHeaderH264\<close>: the array \<open>nalus\<close> (the types of its entries) and the count
  \<open>nalus_length\<close> of the entries in use.
\<close>

record RTPVideoHeaderH264 =
  nalus :: "NaluType list"
  nalus_length :: nat

text \<open>The variant \<open>video_type_header\<close>; \<open>absl::get_if\<close> succeeds on \<open>H264Header\<close> only.\<close>

datatype RTPVideoTypeHeader =
  monostate | VP8Header | VP9Header | H264Header RTPVideoHeaderH264

text \<open>
  The fields of \<open>RTPVideoHeader\<close> that the packet buffer reads or writes;
  \<open>temporal_id\<close> is \<open>frame_marking.temporal_id\<close>. Rotation, content type, timing and
  colour space are only passed on to the frame, so natural numbers stand for them.
\<close>

record RTPVideoHeader =
  codec :: VideoCodecType
  frame_type :: VideoFrameType
  is_first_packet_in_frame :: bool
  is_last_packet_in_frame :: bool
  video_type_header :: RTPVideoTypeHeader
  temporal_id :: "8 word"
  rotation :: nat
  content_type :: nat
  video_timing :: nat
  color_space :: "nat option"

record RtpPacketInfo =
  receive_time_ms :: int

text \<open>
  \<open>VCMPacket\<close>. \<open>dataPtr\<close> is a pointer: \<open>None\<close> is \<open>nullptr\<close>, \<open>Some a\<close> the address
  of a payload array in the heap of the buffer's state.
\<close>

record VCMPacket =
  payloadType :: "8 word"
  timestamp :: "32 word"
  ntp_time_ms :: int
  seqNum :: "16 word"
  dataPtr :: "nat option"
  sizeBytes :: nat
  markerBit :: bool
  timesNacked :: int
  video_header :: RTPVideoHeader
  generic_descriptor :: "nat option"
  packet_info :: RtpPacketInfo

record ContinuityInfo =
  seq_num :: "16 word"
  frame_begin :: bool
  frame_end :: bool
  used :: bool
  continuous :: bool
  frame_created :: bool

record EncodedImageBuffer =
  buffer_size :: nat
  buffer_data :: "8 word list"

text \<open>\<open>RtpFrameObject\<close>, with the arguments of its constructor as fields.\<close>

record RtpFrameObject =
  frame_first_seq_num :: "16 word"
  frame_last_seq_num :: "16 word"
  frame_markerBit :: bool
  times_nacked :: int
  first_recv_time :: int
  last_recv_time :: int
  frame_timestamp :: "32 word"
  frame_ntp_time_ms :: int
  frame_video_timing :: nat
  frame_payloadType :: "8 word"
  frame_codec :: VideoCodecType
  frame_rotation :: nat
  frame_content_type :: nat
  frame_video_header :: RTPVideoHeader
  frame_color_space :: "nat option"
  frame_generic_descriptor :: "nat option"
  frame_packet_infos :: "RtpPacketInfo list"
  image_buffer :: EncodedImageBuffer

text \<open>
  The members of \<open>PacketBuffer\<close>, named as in the source without the trailing
  underscore (\<open>cur_size\<close> is \<open>size_\<close>). \<open>heap\<close> is the store of the payload arrays that
  \<open>dataPtr\<close> fields point to, as an association list from addresses to bytes.
  Modelled from the spec: \<open>missing_packets\<close> is declared in packet_buffer.h, which is
  not among the sources; the spec calls it an ordered set of sequence numbers, and the
  code erases its oldest entries from \<open>begin()\<close>, so it is a list in the order
  \<open>seq_less\<close> below, oldest entry first.
\<close>

record PacketBuffer =
  cur_size :: nat
  max_size :: nat
  first_seq_num :: "16 word"
  first_packet_received :: bool
  is_cleared_to_first_seq_num :: bool
  data_buffer :: "VCMPacket list"
  sequence_buffer :: "ContinuityInfo list"
  last_received_packet_ms :: "int option"
  last_received_keyframe_packet_ms :: "int option"
  newest_inserted_seq_num :: "16 word option"
  missing_packets :: "16 word list"
  unique_frames_seen :: int
  rtp_timestamps_history_set :: "32 word set"
  rtp_timestamps_history_queue :: "32 word list"
  sps_pps_idr_is_h264_keyframe :: bool
  heap :: "(nat \<times> 8 word list) list"

text \<open>
  Modelled from the spec: the two limits are constants of headers that are not among the
  sources (h264_globals.h and the frame-marking header); the spec only calls the first a
  fixed safety limit. The values are those of WebRTC; no theorem below depends on them.
\<close>

definition kMaxNalusPerPacket :: nat where
  "kMaxNalusPerPacket = 10"

definition kNoTemporalIdx :: "8 word" where
  "kNoTemporalIdx = 0xFF"

text \<open>
  Modelled from the spec: the default-constructed slots that fill a new vector (the
  constructors are in headers that are not among the sources). A slot is created empty,
  \<open>used = false\<close>, and the payload pointer of an empty packet record is null.
\<close>

definition default_ContinuityInfo :: ContinuityInfo where
  "default_ContinuityInfo =
     \<lparr>seq_num = 0, frame_begin = False, frame_end = False, used = False,
      continuous = False, frame_created = False\<rparr>"

definition default_RTPVideoHeader :: RTPVideoHeader where
  "default_RTPVideoHeader =
     \<lparr>codec = kVideoCodecGeneric, frame_type = kEmptyFrame,
      is_first_packet_in_frame = False, is_last_packet_in_frame = False,
      video_type_header = monostate, temporal_id = kNoTemporalIdx, rotation = 0,
      content_type = 0, video_timing = 0, color_space = None\<rparr>"

definition default_VCMPacket :: VCMPacket where
  "default_VCMPacket =
     \<lparr>payloadType = 0, timestamp = 0, ntp_time_ms = 0, seqNum = 0, dataPtr = None,
      sizeBytes = 0, markerBit = False, timesNacked = -1,
      video_header = default_RTPVideoHeader, generic_descriptor = None,
      packet_info = \<lparr>receive_time_ms = 0\<rparr>\<rparr>"

section \<open>The ordered set of missing sequence numbers\<close>

text \<open>
  Modelled from the spec: the operations of the ordered set (\<open>std::set\<close> with a
  sequence-number comparator, declared outside the sources). \<open>seq_less a b\<close> is the
  comparator: \<open>a\<close> is older than \<open>b\<close>. An iterator is the suffix of the list that
  starts at it, so \<open>erase(begin(), it)\<close> leaves that suffix.
\<close>

definition seq_less :: "16 word \<Rightarrow> 16 word \<Rightarrow> bool" where
  "seq_less a b = AheadOf b a"

definition lower_bound :: "16 word list \<Rightarrow> 16 word \<Rightarrow> 16 word list" where
  "lower_bound ms x = dropWhile (\<lambda>e. seq_less e x) ms"

definition upper_bound :: "16 word list \<Rightarrow> 16 word \<Rightarrow> 16 word list" where
  "upper_bound ms x = dropWhile (\<lambda>e. \<not> seq_less x e) ms"

fun set_insert :: "16 word \<Rightarrow> 16 word list \<Rightarrow> 16 word list" where
  "set_insert x [] = [x]"
| "set_insert x (e # es) =
     (if seq_less e x then e # set_insert x es
      else if seq_less x e then x # e # es
      else e # es)"

fun set_erase :: "16 word \<Rightarrow> 16 word list \<Rightarrow> 16 word list" where
  "set_erase x [] = []"
| "set_erase x (e # es) =
     (if seq_less e x then e # set_erase x es
      else if seq_less x e then e # es
      else es)"

section \<open>The heap of payload arrays\<close>

text \<open>\<open>delete[] p\<close>: nothing for \<open>nullptr\<close>, else the array at \<open>p\<close> is gone.\<close>

definition delete_array :: "nat option \<Rightarrow> (nat \<times> 8 word list) list \<Rightarrow> (nat \<times> 8 word list) list" where
  "delete_array p h = (case p of None \<Rightarrow> h | Some a \<Rightarrow> filter (\<lambda>e. fst e \<noteq> a) h)"

text \<open>
  The read of \<open>memcpy(dst, p, n)\<close>: \<open>n\<close> bytes of the array at \<open>p\<close>. A read of a positive
  number of bytes through a null or dangling pointer, or past the end of the array, is
  undefined behaviour and has no result.
\<close>

definition read_payload :: "(nat \<times> 8 word list) list \<Rightarrow> nat option \<Rightarrow> nat \<Rightarrow> 8 word list option" where
  "read_payload h p n =
     (if n = 0 then Some []
      else case p of
             None \<Rightarrow> None
           | Some a \<Rightarrow>
               (case map_of h a of
                  None \<Rightarrow> None
                | Some bytes \<Rightarrow> if n \<le> length bytes then Some (take n bytes) else None))"

section \<open>Operations\<close>

subsection \<open>OnTimestampReceived\<close>

definition OnTimestampReceived :: "PacketBuffer \<Rightarrow> 32 word \<Rightarrow> PacketBuffer" where
  "OnTimestampReceived s rtp_timestamp =
     (if rtp_timestamp \<in> rtp_timestamps_history_set s then s
      else
        let s1 = s\<lparr>rtp_timestamps_history_set := insert rtp_timestamp (rtp_timestamps_history_set s),
                   rtp_timestamps_history_queue := rtp_timestamps_history_queue s @ [rtp_timestamp],
                   unique_frames_seen := unique_frames_seen s + 1\<rparr>
        in if card (rtp_timestamps_history_set s1) > 1000
           then s1\<lparr>rtp_timestamps_history_set :=
                      rtp_timestamps_history_set s1 - {hd (rtp_timestamps_history_queue s1)},
                    rtp_timestamps_history_queue := tl (rtp_timestamps_history_queue s1)\<rparr>
           else s1)"

subsection \<open>UpdateMissingPackets\<close>

text \<open>
  The loop \<open>while (AheadOf(seq_num, *newest)) { insert(*newest); ++*newest; }\<close>, on the
  pair of the newest marker and the missing set.
\<close>

function insert_missing_loop :: "16 word \<Rightarrow> 16 word \<Rightarrow> 16 word list \<Rightarrow> 16 word \<times> 16 word list" where
  "insert_missing_loop seq newest ms =
     (if AheadOf seq newest
      then insert_missing_loop seq (newest + 1) (set_insert newest ms)
      else (newest, ms))"
  by pat_completeness auto
termination
proof (relation "measure (\<lambda>(seq, newest, ms). unat (seq - newest))")
  show "wf (measure (\<lambda>(seq, newest, ms). unat (seq - newest)))"
    by simp
next
  fix seq newest :: "16 word" and ms :: "16 word list"
  assume "AheadOf seq newest"
  then have "seq - newest \<noteq> 0"
    by (simp add: AheadOf_def)
  then have "unat (seq - newest - 1) = unat (seq - newest) - 1" and "unat (seq - newest) \<noteq> 0"
    by (simp_all add: unat_minus_one unat_eq_zero)
  then have lt: "unat (seq - newest - 1) < unat (seq - newest)"
    by arith
  have e: "seq - (newest + 1) = seq - newest - 1"
    by simp
  have "unat (seq - (newest + 1)) < unat (seq - newest)"
    unfolding e by (rule lt)
  then show "((seq, newest + 1, set_insert newest ms), (seq, newest, ms))
      \<in> measure (\<lambda>(seq, newest, ms). unat (seq - newest))"
    by simp
qed

declare insert_missing_loop.simps [simp del]

definition UpdateMissingPackets :: "PacketBuffer \<Rightarrow> 16 word \<Rightarrow> PacketBuffer" where
  "UpdateMissingPackets s seq =
     (let newest = (case newest_inserted_seq_num s of None \<Rightarrow> seq | Some n \<Rightarrow> n)
      in if AheadOf seq newest
         then
           let old_seq_num = seq - 1000;
               erased = lower_bound (missing_packets s) old_seq_num;
               newest1 = (if AheadOf old_seq_num newest then old_seq_num else newest);
               r = insert_missing_loop seq (newest1 + 1) erased
           in s\<lparr>newest_inserted_seq_num := Some (fst r), missing_packets := snd r\<rparr>
         else s\<lparr>newest_inserted_seq_num := Some newest,
                missing_packets := set_erase seq (missing_packets s)\<rparr>)"

subsection \<open>Clearing slots\<close>

text \<open>
  The three statements that free a slot, shared by \<open>Clear\<close>, \<open>ClearTo\<close> and
  \<open>ClearInterval\<close>: \<open>delete[] data_buffer[i].dataPtr; data_buffer[i].dataPtr = nullptr;
  sequence_buffer[i].used = false\<close>.
\<close>

definition free_slot :: "PacketBuffer \<Rightarrow> nat \<Rightarrow> PacketBuffer" where
  "free_slot s i =
     s\<lparr>heap := delete_array (dataPtr (data_buffer s ! i)) (heap s),
       data_buffer := (data_buffer s)[i := (data_buffer s ! i)\<lparr>dataPtr := None\<rparr>],
       sequence_buffer := (sequence_buffer s)[i := (sequence_buffer s ! i)\<lparr>used := False\<rparr>]\<rparr>"

definition Clear :: "PacketBuffer \<Rightarrow> PacketBuffer" where
  "Clear s =
     (fold (\<lambda>i t. free_slot t i) [0..<cur_size s] s)
       \<lparr>first_packet_received := False,
        is_cleared_to_first_seq_num := False,
        last_received_packet_ms := None,
        last_received_keyframe_packet_ms := None,
        newest_inserted_seq_num := None,
        missing_packets := []\<rparr>"

text \<open>The loop of \<open>ClearTo\<close>, by the number of iterations that remain.\<close>

fun ClearTo_loop :: "nat \<Rightarrow> 16 word \<Rightarrow> PacketBuffer \<Rightarrow> PacketBuffer" where
  "ClearTo_loop 0 seq s = s"
| "ClearTo_loop (Suc n) seq s =
     (let index = unat (first_seq_num s) mod cur_size s;
          s1 = (if AheadOf seq (seq_num (sequence_buffer s ! index))
                then free_slot s index else s)
      in ClearTo_loop n seq (s1\<lparr>first_seq_num := first_seq_num s1 + 1\<rparr>))"

text \<open>
  The trimming at the end of \<open>ClearTo\<close>: with \<open>it = upper_bound(seq)\<close>, when
  \<open>it \<noteq> begin()\<close> the entries before \<open>--it\<close> are erased, so the last entry that is
  not after \<open>seq\<close> stays.
\<close>

definition trim_missing :: "16 word list \<Rightarrow> 16 word \<Rightarrow> 16 word list" where
  "trim_missing ms seq =
     (let before = takeWhile (\<lambda>e. \<not> seq_less seq e) ms
      in if before \<noteq> [] then last before # upper_bound ms seq else ms)"

definition ClearTo :: "PacketBuffer \<Rightarrow> 16 word \<Rightarrow> PacketBuffer" where
  "ClearTo s seq0 =
     (if is_cleared_to_first_seq_num s \<and> AheadOf (first_seq_num s) seq0 then s
      else if \<not> first_packet_received s then s
      else
        let seq = seq0 + 1;
            diff = unat (ForwardDiff (first_seq_num s) seq);
            iterations = min diff (cur_size s);
            s1 = ClearTo_loop iterations seq s
        in s1\<lparr>first_seq_num := seq,
              is_cleared_to_first_seq_num := True,
              missing_packets := trim_missing (missing_packets s1) seq\<rparr>)"

text \<open>\<open>ClearInterval\<close>: \<open>ForwardDiff(start, stop + 1)\<close> slots from \<open>start\<close> on.\<close>

fun ClearInterval_loop :: "nat \<Rightarrow> 16 word \<Rightarrow> PacketBuffer \<Rightarrow> PacketBuffer" where
  "ClearInterval_loop 0 seq s = s"
| "ClearInterval_loop (Suc n) seq s =
     ClearInterval_loop n (seq + 1) (free_slot s (unat seq mod cur_size s))"

definition ClearInterval :: "PacketBuffer \<Rightarrow> 16 word \<Rightarrow> 16 word \<Rightarrow> PacketBuffer" where
  "ClearInterval s start_seq stop_seq =
     ClearInterval_loop (unat (ForwardDiff start_seq (stop_seq + 1))) start_seq s"

subsection \<open>ExpandBufferSize\<close>

text \<open>
  One round of the relocation loop: slot \<open>i\<close> of the old vectors, when used, goes to
  index \<open>seq_num mod new_size\<close> of the new ones.
\<close>

definition relocate :: "PacketBuffer \<Rightarrow> nat \<Rightarrow> nat \<Rightarrow> VCMPacket list \<times> ContinuityInfo list
    \<Rightarrow> VCMPacket list \<times> ContinuityInfo list" where
  "relocate s new_size i nb =
     (if used (sequence_buffer s ! i)
      then let index = unat (seq_num (sequence_buffer s ! i)) mod new_size
           in ((fst nb)[index := data_buffer s ! i], (snd nb)[index := sequence_buffer s ! i])
      else nb)"

text \<open>
  The result is the returned flag and the state. With \<open>new_size = 0\<close> the relocation of
  a used slot divides by zero.
\<close>

definition ExpandBufferSize :: "PacketBuffer \<Rightarrow> error + (bool \<times> PacketBuffer)" where
  "ExpandBufferSize s =
     (if cur_size s = max_size s then Inr (False, s)
      else
        let new_size = min (max_size s) (2 * cur_size s)
        in if new_size = 0 \<and> (\<exists>i \<in> set [0..<cur_size s]. used (sequence_buffer s ! i))
           then Inl DivisionByZero
           else
             let nb = fold (relocate s new_size) [0..<cur_size s]
                        (replicate new_size default_VCMPacket,
                         replicate new_size default_ContinuityInfo)
             in Inr (True, s\<lparr>cur_size := new_size, sequence_buffer := snd nb,
                              data_buffer := fst nb\<rparr>))"

subsection \<open>PotentialNewFrame\<close>

text \<open>The step to the previous slot: \<open>start_index > 0 ? start_index - 1 : size_ - 1\<close>.\<close>

definition prev_index :: "PacketBuffer \<Rightarrow> nat \<Rightarrow> nat" where
  "prev_index s i = (if i > 0 then i - 1 else cur_size s - 1)"

definition PotentialNewFrame :: "PacketBuffer \<Rightarrow> 16 word \<Rightarrow> bool" where
  "PotentialNewFrame s seq =
     (let index = unat seq mod cur_size s;
          prev = prev_index s index
      in if \<not> used (sequence_buffer s ! index) then False
         else if seq_num (sequence_buffer s ! index) \<noteq> seq then False
         else if frame_created (sequence_buffer s ! index) then False
         else if frame_begin (sequence_buffer s ! index) then True
         else if \<not> used (sequence_buffer s ! prev) then False
         else if frame_created (sequence_buffer s ! prev) then False
         else if seq_num (sequence_buffer s ! prev)
                   \<noteq> seq_num (sequence_buffer s ! index) - 1 then False
         else if timestamp (data_buffer s ! prev)
                   \<noteq> timestamp (data_buffer s ! index) then False
         else if continuous (sequence_buffer s ! prev) then True
         else False)"

subsection \<open>GetPacket and GetEncodedImageBuffer\<close>

text \<open>\<open>GetPacket\<close> returns a pointer to the record of the slot, or \<open>nullptr\<close>.\<close>

definition GetPacket :: "PacketBuffer \<Rightarrow> 16 word \<Rightarrow> VCMPacket option" where
  "GetPacket s seq =
     (let index = unat seq mod cur_size s
      in if \<not> used (sequence_buffer s ! index) \<or> seq \<noteq> seq_num (sequence_buffer s ! index)
         then None
         else Some (data_buffer s ! index))"

text \<open>
  The loops that walk the ring forward, \<open>index = (index + 1) % size_\<close> until a stop
  index is met, terminate by the number of steps from \<open>i\<close> forward to the stop index
  \<open>e\<close>.
\<close>

definition ring_dist :: "nat \<Rightarrow> nat \<Rightarrow> nat \<Rightarrow> nat" where
  "ring_dist n e i = (if i < n then (if i < e then e - i else e + n - i) else n + 1)"

lemma ring_dist_step:
  assumes "0 < n" "e < n" "Suc i mod n \<noteq> e"
  shows "ring_dist n e (Suc i mod n) < ring_dist n e i"
proof (cases "i < n")
  case True
  then have "Suc i mod n = (if Suc i < n then Suc i else 0)"
    by (simp add: mod_Suc)
  then show ?thesis using assms True by (auto simp: ring_dist_def split: if_splits)
next
  case False
  have "Suc i mod n < n" using assms by simp
  then show ?thesis using False assms by (auto simp: ring_dist_def)
qed

text \<open>
  The do-while loop of \<open>GetEncodedImageBuffer\<close>. \<open>acc\<close> holds the bytes copied so far,
  so \<open>offset\<close> is its length; \<open>end\<close> is \<open>(last_seq_num + 1) % size_\<close>, computed in
  \<open>int\<close> and so without wrap-around at 16 bits. \<open>RTC_CHECK_LE\<close> is fatal when it fails.
\<close>

function copy_loop :: "PacketBuffer \<Rightarrow> nat \<Rightarrow> 16 word \<Rightarrow> nat \<Rightarrow> 8 word list \<Rightarrow> error + 8 word list" where
  "copy_loop s bsize last_seq index acc =
     (if cur_size s = 0 then Inl DivisionByZero
      else if bsize < length acc + sizeBytes (data_buffer s ! index) then Inl CheckFailed
      else
        case read_payload (heap s) (dataPtr (data_buffer s ! index))
               (sizeBytes (data_buffer s ! index)) of
          None \<Rightarrow> Inl BadRead
        | Some bytes \<Rightarrow>
            if (index + 1) mod cur_size s \<noteq> (unat last_seq + 1) mod cur_size s
            then copy_loop s bsize last_seq ((index + 1) mod cur_size s) (acc @ bytes)
            else Inr (acc @ bytes))"
  by pat_completeness auto
termination
  by (relation "measure (\<lambda>(s, bsize, last_seq, index, acc).
        ring_dist (cur_size s) (Suc (unat last_seq) mod cur_size s) index)")
     (simp_all add: ring_dist_step)

declare copy_loop.simps [simp del]

definition GetEncodedImageBuffer :: "PacketBuffer \<Rightarrow> nat \<Rightarrow> 16 word \<Rightarrow> 16 word \<Rightarrow> error + EncodedImageBuffer" where
  "GetEncodedImageBuffer s fsize first_seq last_seq =
     (if cur_size s = 0 then Inl DivisionByZero
      else case copy_loop s fsize last_seq (unat first_seq mod cur_size s) [] of
             Inl e \<Rightarrow> Inl e
           | Inr bytes \<Rightarrow> Inr \<lparr>buffer_size = fsize, buffer_data = bytes\<rparr>)"

subsection \<open>FindFrames\<close>

text \<open>The local variables of the backward walk that finds the first packet of a frame.\<close>

record FrameScan =
  frame_size :: nat
  max_nack_count :: int
  start_seq_num :: "16 word"
  min_recv_time :: int
  max_recv_time :: int
  packet_infos :: "RtpPacketInfo list"
  start_index :: nat
  tested_packets :: "64 word"
  has_h264_sps :: bool
  has_h264_pps :: bool
  has_h264_idr :: bool
  is_h264_keyframe :: bool

text \<open>
  The walk ends with \<open>return found_frames\<close> (\<open>ScanAbort\<close>) or with a \<open>break\<close>
  (\<open>ScanDone\<close>).
\<close>

datatype ScanResult = ScanAbort PacketBuffer | ScanDone PacketBuffer FrameScan

text \<open>
  The first statements of the walk's body, up to \<open>packet_infos.push_back\<close>: the slot at
  \<open>start_index\<close> is counted, accumulated and marked \<open>frame_created\<close>.
\<close>

definition visit_locals :: "PacketBuffer \<Rightarrow> FrameScan \<Rightarrow> FrameScan" where
  "visit_locals s sc =
     (let pkt = data_buffer s ! start_index sc
      in sc\<lparr>tested_packets := tested_packets sc + 1,
            frame_size := frame_size sc + sizeBytes pkt,
            max_nack_count := max (max_nack_count sc) (timesNacked pkt),
            min_recv_time := min (min_recv_time sc) (receive_time_ms (packet_info pkt)),
            max_recv_time := max (max_recv_time sc) (receive_time_ms (packet_info pkt)),
            packet_infos := packet_infos sc @ [packet_info pkt]\<rparr>)"

definition set_frame_created :: "PacketBuffer \<Rightarrow> nat \<Rightarrow> bool \<Rightarrow> PacketBuffer" where
  "set_frame_created s i b =
     s\<lparr>sequence_buffer := (sequence_buffer s)[i := (sequence_buffer s ! i)\<lparr>frame_created := b\<rparr>]\<rparr>"

text \<open>The loop over \<open>nalus[0 .. nalus_length)\<close>, on the flags (sps, pps, idr).\<close>

definition note_nalu :: "NaluType \<Rightarrow> bool \<times> bool \<times> bool \<Rightarrow> bool \<times> bool \<times> bool" where
  "note_nalu t f =
     (if t = kSps then (True, fst (snd f), snd (snd f))
      else if t = kPps then (fst f, True, snd (snd f))
      else if t = kIdr then (fst f, fst (snd f), True)
      else f)"

text \<open>
  The block under \<open>if (is_h264 && !is_h264_keyframe)\<close> for the packet \<open>pkt\<close>: \<open>None\<close>
  is its \<open>return found_frames\<close>.
\<close>

definition h264_scan :: "bool \<Rightarrow> VCMPacket \<Rightarrow> FrameScan \<Rightarrow> FrameScan option" where
  "h264_scan sps_pps_idr pkt sc =
     (case video_type_header (video_header pkt) of
        H264Header h \<Rightarrow>
          if nalus_length h \<ge> kMaxNalusPerPacket then None
          else
            let f = fold note_nalu (take (nalus_length h) (nalus h))
                      (has_h264_sps sc, has_h264_pps sc, has_h264_idr sc)
            in Some (sc\<lparr>has_h264_sps := fst f, has_h264_pps := fst (snd f),
                         has_h264_idr := snd (snd f),
                         is_h264_keyframe :=
                           (if (sps_pps_idr \<and> snd (snd f) \<and> fst f \<and> fst (snd f))
                               \<or> (\<not> sps_pps_idr \<and> snd (snd f))
                            then True else is_h264_keyframe sc)\<rparr>)
      | _ \<Rightarrow> None)"

definition h264_step :: "bool \<Rightarrow> PacketBuffer \<Rightarrow> nat \<Rightarrow> FrameScan \<Rightarrow> FrameScan option" where
  "h264_step is_h264 s i sc =
     (if is_h264 \<and> \<not> is_h264_keyframe sc
      then h264_scan (sps_pps_idr_is_h264_keyframe s) (data_buffer s ! i) sc
      else Some sc)"

lemma cur_size_set_frame_created [simp]: "cur_size (set_frame_created s i b) = cur_size s"
  by (simp add: set_frame_created_def)

lemma tested_visit_locals [simp]: "tested_packets (visit_locals s sc) = tested_packets sc + 1"
  by (simp add: visit_locals_def Let_def)

lemma h264_step_tested:
  "h264_step is_h264 s i sc = Some sc2 \<Longrightarrow> tested_packets sc2 = tested_packets sc"
  by (auto simp: h264_step_def h264_scan_def Let_def
           split: if_splits RTPVideoTypeHeader.splits)

text \<open>
  One iteration of the walk \<open>while (true)\<close>: it ends the walk with
  \<open>return found_frames\<close> (\<open>WalkAbort\<close>) or a \<open>break\<close> (\<open>WalkBreak\<close>), or goes on to the
  previous slot (\<open>WalkCont\<close>). \<open>tested_packets\<close> is a \<open>size_t\<close>, a 64-bit word that
  is compared with \<open>size_\<close>.
\<close>

datatype WalkStep =
  WalkAbort PacketBuffer | WalkBreak PacketBuffer FrameScan | WalkCont PacketBuffer FrameScan

definition walk_step :: "bool \<Rightarrow> 32 word \<Rightarrow> PacketBuffer \<Rightarrow> FrameScan \<Rightarrow> WalkStep" where
  "walk_step is_h264 ts s sc =
     (let sc1 = visit_locals s sc;
          s1 = set_frame_created s (start_index sc) True
      in if \<not> is_h264 \<and> frame_begin (sequence_buffer s1 ! start_index sc) then WalkBreak s1 sc1
         else
           case h264_step is_h264 s1 (start_index sc) sc1 of
             None \<Rightarrow> WalkAbort s1
           | Some sc2 \<Rightarrow>
               if tested_packets sc2 = word_of_nat (cur_size s1) then WalkBreak s1 sc2
               else
                 let sc3 = sc2\<lparr>start_index := prev_index s1 (start_index sc2)\<rparr>
                 in if is_h264 \<and>
                       (\<not> used (sequence_buffer s1 ! start_index sc3)
                        \<or> timestamp (data_buffer s1 ! start_index sc3) \<noteq> ts)
                    then WalkBreak s1 sc3
                    else WalkCont s1 (sc3\<lparr>start_seq_num := start_seq_num sc3 - 1\<rparr>))"

lemma walk_step_cont:
  assumes "walk_step is_h264 ts s sc = WalkCont s1 sc1"
  shows "cur_size s1 = cur_size s" and "tested_packets sc1 = tested_packets sc + 1"
    and "tested_packets sc1 \<noteq> word_of_nat (cur_size s)"
  using assms
  by (auto simp: walk_step_def Let_def split: if_splits option.splits
           dest!: h264_step_tested)

function find_frame_start :: "bool \<Rightarrow> 32 word \<Rightarrow> PacketBuffer \<Rightarrow> FrameScan \<Rightarrow> ScanResult" where
  "find_frame_start is_h264 ts s sc =
     (case walk_step is_h264 ts s sc of
        WalkAbort s1 \<Rightarrow> ScanAbort s1
      | WalkBreak s1 sc1 \<Rightarrow> ScanDone s1 sc1
      | WalkCont s1 sc1 \<Rightarrow> find_frame_start is_h264 ts s1 sc1)"
  by pat_completeness auto
termination
proof (relation "measure (\<lambda>(is_h264, ts, s, sc).
    unat (word_of_nat (cur_size s) - tested_packets sc - 1))", goal_cases)
  case 1
  show ?case by simp
next
  case (2 is_h264 ts s sc s1 sc1)
  note c = walk_step_cont [OF 2]
  define d :: "64 word" where "d = word_of_nat (cur_size s) - tested_packets sc - 1"
  have "d \<noteq> 0"
  proof
    assume "d = 0"
    then have "word_of_nat (cur_size s) - (tested_packets sc + 1) = 0"
      by (simp add: d_def diff_diff_eq)
    then have "word_of_nat (cur_size s) = tested_packets sc + 1"
      by (simp only: right_minus_eq)
    with c show False by simp
  qed
  then have "unat (d - 1) = unat d - 1" and "unat d \<noteq> 0"
    by (simp_all add: unat_minus_one unat_eq_zero)
  then have lt: "unat (d - 1) < unat d" by arith
  have e: "word_of_nat (cur_size s) - (tested_packets sc + 1) - 1 = d - 1"
    by (simp add: d_def)
  have "unat (word_of_nat (cur_size s) - (tested_packets sc + 1) - 1 :: 64 word) < unat d"
    unfolding e by (rule lt)
  then show ?case using c by (simp add: d_def)
qed

declare find_frame_start.simps [simp del]


text \<open>
  The loop that takes the \<open>frame_created\<close> marks back, from \<open>start_index\<close> forward to
  \<open>stop_index = (index + 1) % size_\<close>, which is stored in a \<open>uint16_t\<close>. It is
  reached with \<open>size_ > 0\<close> only.
\<close>

definition stop_index :: "PacketBuffer \<Rightarrow> nat \<Rightarrow> nat" where
  "stop_index s index = unat (word_of_nat ((index + 1) mod cur_size s) :: 16 word)"

lemma stop_index_less: "0 < cur_size s \<Longrightarrow> stop_index s index < cur_size s"
proof -
  assume n: "0 < cur_size s"
  have "unat (word_of_nat ((index + 1) mod cur_size s) :: 16 word) \<le> (index + 1) mod cur_size s"
    by (simp add: unat_of_nat)
  also have "\<dots> < cur_size s" using n by simp
  finally show ?thesis by (simp add: stop_index_def)
qed

function unmark_loop :: "PacketBuffer \<Rightarrow> nat \<Rightarrow> nat \<Rightarrow> PacketBuffer" where
  "unmark_loop s index i =
     (if cur_size s = 0 \<or> i = stop_index s index then s
      else unmark_loop (set_frame_created s i False) index ((i + 1) mod cur_size s))"
  by pat_completeness auto
termination
proof (relation "measure (\<lambda>(s, index, i).
    if i < cur_size s
    then (if i \<le> stop_index s index then stop_index s index - i
          else stop_index s index + cur_size s - i)
    else cur_size s)", goal_cases)
  case 1
  show ?case by simp
next
  case (2 s index i)
  have st: "stop_index (set_frame_created s i False) index = stop_index s index"
    by (simp add: stop_index_def)
  have n: "0 < cur_size s" and ne: "i \<noteq> stop_index s index"
    using 2 by simp_all
  have e: "stop_index s index < cur_size s"
    using n by (rule stop_index_less)
  have less: "Suc i mod cur_size s < cur_size s" using n by simp
  show ?case
  proof (cases "i < cur_size s")
    case True
    then have "Suc i mod cur_size s = (if Suc i < cur_size s then Suc i else 0)"
      by (simp add: mod_Suc)
    then show ?thesis using True ne e st by (auto split: if_splits)
  next
    case False
    then show ?thesis using less e st by auto
  qed
qed

declare unmark_loop.simps [simp del]

text \<open>
  The body of the \<open>for\<close> loop of \<open>FindFrames\<close> ends in one of three ways:
  \<open>return found_frames\<close> (\<open>StepReturn\<close>), a fatal check or a null dereference
  (\<open>StepCrash\<close>), or the end of the body, from where the loop goes on (\<open>StepNext\<close>).
\<close>

datatype StepResult =
  StepReturn PacketBuffer | StepCrash error | StepNext "RtpFrameObject list" PacketBuffer

text \<open>
  From \<open>missing_packets_.erase\<close> to \<open>ClearInterval\<close>: the frame is built and emitted.
  \<open>GetPacket\<close> may return \<open>nullptr\<close>, which the constructor call dereferences.
\<close>

definition emit_frame :: "16 word \<Rightarrow> RtpFrameObject list \<Rightarrow> PacketBuffer \<Rightarrow> FrameScan \<Rightarrow> StepResult" where
  "emit_frame seq found s sc =
     (let s1 = s\<lparr>missing_packets := upper_bound (missing_packets s) seq\<rparr>
      in case GetPacket s1 (start_seq_num sc) of
           None \<Rightarrow> StepCrash NullDeref
         | Some first_packet \<Rightarrow>
             (case GetPacket s1 seq of
                None \<Rightarrow> StepCrash NullDeref
              | Some last_packet \<Rightarrow>
                  (case GetEncodedImageBuffer s1 (frame_size sc) (start_seq_num sc) seq of
                     Inl e \<Rightarrow> StepCrash e
                   | Inr buf \<Rightarrow>
                       StepNext
                         (found @
                          [\<lparr>frame_first_seq_num = start_seq_num sc,
                            frame_last_seq_num = seq,
                            frame_markerBit = markerBit last_packet,
                            times_nacked = max_nack_count sc,
                            first_recv_time = min_recv_time sc,
                            last_recv_time = max_recv_time sc,
                            frame_timestamp = timestamp first_packet,
                            frame_ntp_time_ms = ntp_time_ms first_packet,
                            frame_video_timing = video_timing (video_header last_packet),
                            frame_payloadType = payloadType first_packet,
                            frame_codec = codec (video_header first_packet),
                            frame_rotation = rotation (video_header last_packet),
                            frame_content_type = content_type (video_header last_packet),
                            frame_video_header = video_header first_packet,
                            frame_color_space = color_space (video_header last_packet),
                            frame_generic_descriptor = generic_descriptor first_packet,
                            frame_packet_infos = rev (packet_infos sc),
                            image_buffer = buf\<rparr>])
                         (ClearInterval s1 (start_seq_num sc) seq))))"

text \<open>
  The assignment \<open>data_buffer_[first_packet_index].video_header.frame_type = ...\<close>.
\<close>

definition set_frame_type :: "PacketBuffer \<Rightarrow> nat \<Rightarrow> VideoFrameType \<Rightarrow> PacketBuffer" where
  "set_frame_type s i t =
     s\<lparr>data_buffer := (data_buffer s)[i := (data_buffer s ! i)
          \<lparr>video_header := (video_header (data_buffer s ! i))\<lparr>frame_type := t\<rparr>\<rparr>]\<rparr>"

text \<open>What follows the walk when it ends with a \<open>break\<close>.\<close>

definition finish_frame :: "bool \<Rightarrow> nat \<Rightarrow> 16 word \<Rightarrow> RtpFrameObject list \<Rightarrow> PacketBuffer \<Rightarrow> FrameScan \<Rightarrow> StepResult" where
  "finish_frame is_h264 index seq found s sc =
     (if is_h264
      then
        let s1 = set_frame_type s (unat (start_seq_num sc) mod cur_size s)
                   (if is_h264_keyframe sc then kVideoFrameKey else kVideoFrameDelta);
            h264tid = temporal_id (video_header (data_buffer s1 ! start_index sc))
        in if h264tid = kNoTemporalIdx \<and> \<not> is_h264_keyframe sc \<and>
              upper_bound (missing_packets s1) (start_seq_num sc) \<noteq> missing_packets s1
           then StepReturn (unmark_loop s1 index (start_index sc))
           else emit_frame seq found s1 sc
      else emit_frame seq found s sc)"

definition set_continuous :: "PacketBuffer \<Rightarrow> nat \<Rightarrow> PacketBuffer" where
  "set_continuous s i =
     s\<lparr>sequence_buffer := (sequence_buffer s)[i := (sequence_buffer s ! i)\<lparr>continuous := True\<rparr>]\<rparr>"

definition init_scan :: "PacketBuffer \<Rightarrow> nat \<Rightarrow> 16 word \<Rightarrow> FrameScan" where
  "init_scan s index seq =
     \<lparr>frame_size = 0, max_nack_count = -1, start_seq_num = seq,
      min_recv_time = receive_time_ms (packet_info (data_buffer s ! index)),
      max_recv_time = receive_time_ms (packet_info (data_buffer s ! index)),
      packet_infos = [], start_index = index, tested_packets = 0,
      has_h264_sps = False, has_h264_pps = False, has_h264_idr = False,
      is_h264_keyframe = False\<rparr>"

definition FindFrames_body :: "16 word \<Rightarrow> RtpFrameObject list \<Rightarrow> PacketBuffer \<Rightarrow> StepResult" where
  "FindFrames_body seq found s =
     (let index = unat seq mod cur_size s;
          s1 = set_continuous s index
      in if \<not> frame_end (sequence_buffer s1 ! index) then StepNext found s1
         else
           let is_h264 = (codec (video_header (data_buffer s1 ! index)) = kVideoCodecH264)
           in case find_frame_start is_h264 (timestamp (data_buffer s1 ! index)) s1
                     (init_scan s1 index seq) of
                ScanAbort s2 \<Rightarrow> StepReturn s2
              | ScanDone s2 sc \<Rightarrow> finish_frame is_h264 index seq found s2 sc)"

lemma cur_size_free_slot [simp]: "cur_size (free_slot s i) = cur_size s"
  by (simp add: free_slot_def)

lemma cur_size_ClearInterval_loop [simp]: "cur_size (ClearInterval_loop n seq s) = cur_size s"
  by (induction n arbitrary: seq s) simp_all

lemma cur_size_unmark_loop [simp]: "cur_size (unmark_loop s index i) = cur_size s"
  by (induction s index i rule: unmark_loop.induct) (subst unmark_loop.simps, simp)

lemma cur_size_walk_step:
  "walk_step is_h264 ts s sc = WalkBreak s1 sc1 \<Longrightarrow> cur_size s1 = cur_size s"
  by (auto simp: walk_step_def Let_def split: if_splits option.splits)

lemma cur_size_find_frame_start:
  "find_frame_start is_h264 ts s sc = ScanDone s' sc' \<Longrightarrow> cur_size s' = cur_size s"
proof (induction is_h264 ts s sc rule: find_frame_start.induct)
  case (1 is_h264 ts s sc)
  show ?case
  proof (cases "walk_step is_h264 ts s sc")
    case (WalkAbort s1)
    with "1.prems" show ?thesis
      by (subst (asm) find_frame_start.simps) simp
  next
    case (WalkBreak s1 sc1)
    with "1.prems" show ?thesis
      by (subst (asm) find_frame_start.simps) (auto dest: cur_size_walk_step)
  next
    case (WalkCont s1 sc1)
    with "1.prems" have "find_frame_start is_h264 ts s1 sc1 = ScanDone s' sc'"
      by (subst (asm) find_frame_start.simps) simp
    from "1.IH" [OF WalkCont this] walk_step_cont(1) [OF WalkCont] show ?thesis
      by simp
  qed
qed

lemma cur_size_emit_frame:
  "emit_frame seq found s sc = StepNext found' s' \<Longrightarrow> cur_size s' = cur_size s"
  by (auto simp: emit_frame_def ClearInterval_def Let_def split: option.splits sum.splits)

lemma cur_size_FindFrames_body:
  "FindFrames_body seq found s = StepNext found' s' \<Longrightarrow> cur_size s' = cur_size s"
proof -
  assume a: "FindFrames_body seq found s = StepNext found' s'"
  have c: "cur_size (set_continuous s i) = cur_size s" for i
    by (simp add: set_continuous_def)
  have t: "cur_size (set_frame_type u i v) = cur_size u" for u i v
    by (simp add: set_frame_type_def)
  have f: "finish_frame b index seq found u sc = StepNext found' s' \<Longrightarrow> cur_size s' = cur_size u"
    for b index u sc
    by (auto simp: finish_frame_def Let_def t split: if_splits dest!: cur_size_emit_frame)
  from a show ?thesis
    by (auto simp: FindFrames_body_def Let_def c split: if_splits ScanResult.splits
          dest!: cur_size_find_frame_start f)
qed

text \<open>
  The \<open>for\<close> loop of \<open>FindFrames\<close>. The result carries the value of \<open>i\<close> at the end,
  the number of iterations that were completed.
\<close>

function FindFrames_loop :: "nat \<Rightarrow> 16 word \<Rightarrow> RtpFrameObject list \<Rightarrow> PacketBuffer
    \<Rightarrow> error + (nat \<times> RtpFrameObject list \<times> PacketBuffer)" where
  "FindFrames_loop i seq found s =
     (if i < cur_size s \<and> PotentialNewFrame s seq
      then case FindFrames_body seq found s of
             StepReturn s' \<Rightarrow> Inr (i, found, s')
           | StepCrash e \<Rightarrow> Inl e
           | StepNext found' s' \<Rightarrow> FindFrames_loop (i + 1) (seq + 1) found' s'
      else Inr (i, found, s))"
  by pat_completeness auto
termination
  by (relation "measure (\<lambda>(i, seq, found, s). cur_size s - i)")
     (auto dest: cur_size_FindFrames_body)

declare FindFrames_loop.simps [simp del]

definition FindFrames :: "PacketBuffer \<Rightarrow> 16 word \<Rightarrow> error + (RtpFrameObject list \<times> PacketBuffer)" where
  "FindFrames s seq =
     (case FindFrames_loop 0 seq [] s of
        Inl e \<Rightarrow> Inl e
      | Inr r \<Rightarrow> Inr (snd r))"

subsection \<open>InsertPacket\<close>

text \<open>
  The loop \<open>while (ExpandBufferSize() && sequence_buffer_[seq_num % size_].used) {}\<close>;
  its condition divides by \<open>size_\<close>.
\<close>

function expand_loop :: "PacketBuffer \<Rightarrow> 16 word \<Rightarrow> error + PacketBuffer" where
  "expand_loop s seq =
     (case ExpandBufferSize s of
        Inl e \<Rightarrow> Inl e
      | Inr r \<Rightarrow>
          if \<not> fst r then Inr (snd r)
          else if cur_size (snd r) = 0 then Inl DivisionByZero
          else if used (sequence_buffer (snd r) ! (unat seq mod cur_size (snd r)))
          then expand_loop (snd r) seq
          else Inr (snd r))"
  by pat_completeness auto
termination
proof (relation "measure (\<lambda>(s, seq).
    if cur_size s = max_size s then 0
    else if max_size s < cur_size s then 1
    else 2 + (max_size s - cur_size s))", goal_cases)
  case 1
  show ?case by simp
next
  case (2 s seq r)
  then show ?case
    by (auto simp: ExpandBufferSize_def Let_def min_def split: if_splits)
qed

declare expand_loop.simps [simp del]

text \<open>
  The assignments that store the packet in the slot \<open>index\<close>, then
  \<open>UpdateMissingPackets\<close>, the two receive times and \<open>FindFrames\<close>. \<open>now_ms\<close> is the
  reading of the clock.
\<close>

definition store_packet :: "PacketBuffer \<Rightarrow> nat \<Rightarrow> VCMPacket \<Rightarrow> PacketBuffer" where
  "store_packet s index packet =
     s\<lparr>sequence_buffer := (sequence_buffer s)[index :=
          \<lparr>seq_num = seqNum packet,
           frame_begin = is_first_packet_in_frame (video_header packet),
           frame_end = is_last_packet_in_frame (video_header packet),
           used = True, continuous = False, frame_created = False\<rparr>],
       data_buffer := (data_buffer s)[index := packet]\<rparr>"

definition note_receive_times :: "PacketBuffer \<Rightarrow> VCMPacket \<Rightarrow> int \<Rightarrow> PacketBuffer" where
  "note_receive_times s packet now_ms =
     s\<lparr>last_received_packet_ms := Some now_ms,
       last_received_keyframe_packet_ms :=
         (if frame_type (video_header packet) = kVideoFrameKey then Some now_ms
          else last_received_keyframe_packet_ms s)\<rparr>"

text \<open>
  The result of \<open>InsertPacket\<close>: the returned flag, the caller's packet (whose
  \<open>dataPtr\<close> is set to null), the state, and the frames handed to the callback.
\<close>

type_synonym InsertResult = "bool \<times> VCMPacket \<times> PacketBuffer \<times> RtpFrameObject list"

definition insert_at :: "PacketBuffer \<Rightarrow> nat \<Rightarrow> VCMPacket \<Rightarrow> int \<Rightarrow> error + InsertResult" where
  "insert_at s index packet now_ms =
     (case FindFrames
             (note_receive_times (UpdateMissingPackets (store_packet s index packet) (seqNum packet))
                packet now_ms)
             (seqNum packet) of
        Inl e \<Rightarrow> Inl e
      | Inr r \<Rightarrow> Inr (True, packet\<lparr>dataPtr := None\<rparr>, snd r, fst r))"

text \<open>The two statements \<open>delete[] packet->dataPtr; packet->dataPtr = nullptr\<close>.\<close>

definition drop_packet :: "bool \<Rightarrow> PacketBuffer \<Rightarrow> VCMPacket \<Rightarrow> InsertResult" where
  "drop_packet ret s packet =
     (ret, packet\<lparr>dataPtr := None\<rparr>, s\<lparr>heap := delete_array (dataPtr packet) (heap s)\<rparr>, [])"

text \<open>The update of \<open>first_seq_num_\<close> on the path that does not return early.\<close>

definition note_first_seq_num :: "PacketBuffer \<Rightarrow> 16 word \<Rightarrow> PacketBuffer" where
  "note_first_seq_num s seq =
     (if \<not> first_packet_received s
      then s\<lparr>first_seq_num := seq, first_packet_received := True\<rparr>
      else if AheadOf (first_seq_num s) seq then s\<lparr>first_seq_num := seq\<rparr>
      else s)"

definition InsertPacket :: "PacketBuffer \<Rightarrow> VCMPacket \<Rightarrow> int \<Rightarrow> error + InsertResult" where
  "InsertPacket s0 packet now_ms =
     (let s = OnTimestampReceived s0 (timestamp packet);
          seq = seqNum packet
      in if cur_size s = 0 then Inl DivisionByZero
         else if first_packet_received s \<and> AheadOf (first_seq_num s) seq
                 \<and> is_cleared_to_first_seq_num s
         then Inr (drop_packet True s packet)
         else
           let s1 = note_first_seq_num s seq;
               index = unat seq mod cur_size s1
           in if used (sequence_buffer s1 ! index)
              then if seqNum (data_buffer s1 ! index) = seqNum packet
                   then Inr (drop_packet True s1 packet)
                   else case expand_loop s1 seq of
                          Inl e \<Rightarrow> Inl e
                        | Inr s2 \<Rightarrow>
                            if used (sequence_buffer s2 ! (unat seq mod cur_size s2))
                            then Inr (drop_packet False (Clear s2) packet)
                            else insert_at s2 (unat seq mod cur_size s2) packet now_ms
              else insert_at s1 index packet now_ms)"

subsection \<open>PaddingReceived\<close>

definition PaddingReceived :: "PacketBuffer \<Rightarrow> 16 word \<Rightarrow> error + (RtpFrameObject list \<times> PacketBuffer)" where
  "PaddingReceived s seq = FindFrames (UpdateMissingPackets s seq) (seq + 1)"

subsection \<open>The constructor\<close>

definition new_PacketBuffer :: "nat \<Rightarrow> nat \<Rightarrow> bool \<Rightarrow> PacketBuffer" where
  "new_PacketBuffer start_buffer_size max_buffer_size field_trial =
     \<lparr>cur_size = start_buffer_size, max_size = max_buffer_size, first_seq_num = 0,
      first_packet_received = False, is_cleared_to_first_seq_num = False,
      data_buffer = replicate start_buffer_size default_VCMPacket,
      sequence_buffer = replicate start_buffer_size default_ContinuityInfo,
      last_received_packet_ms = None, last_received_keyframe_packet_ms = None,
      newest_inserted_seq_num = None, missing_packets = [], unique_frames_seen = 0,
      rtp_timestamps_history_set = {}, rtp_timestamps_history_queue = [],
      sps_pps_idr_is_h264_keyframe = field_trial, heap = []\<rparr>"

section \<open>Example inputs\<close>

text \<open>A packet of the generic codec with the given sequence number, timestamp and flags.\<close>

definition test_packet :: "16 word \<Rightarrow> 32 word \<Rightarrow> bool \<Rightarrow> bool \<Rightarrow> VCMPacket" where
  "test_packet seq ts is_first is_last =
     default_VCMPacket\<lparr>seqNum := seq, timestamp := ts,
       video_header := default_RTPVideoHeader\<lparr>is_first_packet_in_frame := is_first,
         is_last_packet_in_frame := is_last\<rparr>\<rparr>"

text \<open>
  A buffer of two slots that holds the packets 0 (first of a frame, proven continuous) and
  1 of one frame.
\<close>

definition two_packets :: PacketBuffer where
  "two_packets =
     set_continuous
       (store_packet (store_packet (new_PacketBuffer 2 4 False) 0 (test_packet 0 7 True False))
          1 (test_packet 1 7 False False)) 0"

section \<open>PotentialNewFrame\<close>

text \<open>
  C2. With a positive capacity (the index \<open>seq mod capacity\<close> divides by it),
  \<open>PotentialNewFrame(seq)\<close> holds if and only if the slot at index \<open>seq mod capacity\<close> is
  used, stores \<open>seq\<close> and is not yet consumed into a frame, and either its \<open>frame_begin\<close>
  flag is set, or the previous slot is used, not consumed, stores \<open>seq - 1\<close> (mod \<open>2^16\<close>),
  has the same capture timestamp and has its \<open>continuous\<close> flag set.
\<close>

theorem PotentialNewFrame_iff:
  assumes "0 < cur_size s"
  shows "PotentialNewFrame s seq \<longleftrightarrow>
     used (sequence_buffer s ! (unat seq mod cur_size s)) \<and>
     seq_num (sequence_buffer s ! (unat seq mod cur_size s)) = seq \<and>
     \<not> frame_created (sequence_buffer s ! (unat seq mod cur_size s)) \<and>
     (frame_begin (sequence_buffer s ! (unat seq mod cur_size s)) \<or>
      used (sequence_buffer s ! prev_index s (unat seq mod cur_size s)) \<and>
      \<not> frame_created (sequence_buffer s ! prev_index s (unat seq mod cur_size s)) \<and>
      seq_num (sequence_buffer s ! prev_index s (unat seq mod cur_size s)) = seq - 1 \<and>
      timestamp (data_buffer s ! prev_index s (unat seq mod cur_size s))
        = timestamp (data_buffer s ! (unat seq mod cur_size s)) \<and>
      continuous (sequence_buffer s ! prev_index s (unat seq mod cur_size s)))"
  by (auto simp: PotentialNewFrame_def Let_def)

theorem PotentialNewFrame_iff_witness:
  "0 < cur_size two_packets \<and> PotentialNewFrame two_packets 1
   \<and> \<not> frame_begin (sequence_buffer two_packets ! 1)
   \<and> continuous (sequence_buffer two_packets ! 0)"
  using PotentialNewFrame_iff [of two_packets 1]
  by (simp add: two_packets_def set_continuous_def store_packet_def new_PacketBuffer_def
        test_packet_def default_VCMPacket_def default_RTPVideoHeader_def
        default_ContinuityInfo_def prev_index_def)

section \<open>Frame conditions of the helpers\<close>

lemma OnTimestampReceived_fields [simp]:
  "cur_size (OnTimestampReceived s ts) = cur_size s"
  "max_size (OnTimestampReceived s ts) = max_size s"
  "first_seq_num (OnTimestampReceived s ts) = first_seq_num s"
  "first_packet_received (OnTimestampReceived s ts) = first_packet_received s"
  "is_cleared_to_first_seq_num (OnTimestampReceived s ts) = is_cleared_to_first_seq_num s"
  "data_buffer (OnTimestampReceived s ts) = data_buffer s"
  "sequence_buffer (OnTimestampReceived s ts) = sequence_buffer s"
  "newest_inserted_seq_num (OnTimestampReceived s ts) = newest_inserted_seq_num s"
  "missing_packets (OnTimestampReceived s ts) = missing_packets s"
  "sps_pps_idr_is_h264_keyframe (OnTimestampReceived s ts) = sps_pps_idr_is_h264_keyframe s"
  "heap (OnTimestampReceived s ts) = heap s"
  by (simp_all add: OnTimestampReceived_def Let_def)

lemma note_first_seq_num_fields [simp]:
  "cur_size (note_first_seq_num s seq) = cur_size s"
  "max_size (note_first_seq_num s seq) = max_size s"
  "data_buffer (note_first_seq_num s seq) = data_buffer s"
  "sequence_buffer (note_first_seq_num s seq) = sequence_buffer s"
  "newest_inserted_seq_num (note_first_seq_num s seq) = newest_inserted_seq_num s"
  "missing_packets (note_first_seq_num s seq) = missing_packets s"
  "heap (note_first_seq_num s seq) = heap s"
  by (simp_all add: note_first_seq_num_def)

lemma free_slot_fields [simp]:
  "max_size (free_slot s i) = max_size s"
  "first_seq_num (free_slot s i) = first_seq_num s"
  "first_packet_received (free_slot s i) = first_packet_received s"
  "is_cleared_to_first_seq_num (free_slot s i) = is_cleared_to_first_seq_num s"
  "newest_inserted_seq_num (free_slot s i) = newest_inserted_seq_num s"
  "missing_packets (free_slot s i) = missing_packets s"
  "length (sequence_buffer (free_slot s i)) = length (sequence_buffer s)"
  "length (data_buffer (free_slot s i)) = length (data_buffer s)"
  by (simp_all add: free_slot_def)

lemma free_slot_nth:
  "j < length (sequence_buffer s) \<Longrightarrow>
   sequence_buffer (free_slot s i) ! j =
     (if j = i then (sequence_buffer s ! j)\<lparr>used := False\<rparr> else sequence_buffer s ! j)"
  by (simp add: free_slot_def nth_list_update)

lemma free_slot_seq_num [simp]:
  "seq_num (sequence_buffer (free_slot s i) ! j) = seq_num (sequence_buffer s ! j)"
  by (cases "i < length (sequence_buffer s)")
     (simp_all add: free_slot_def nth_list_update list_update_beyond not_less)

lemma free_slot_seqNum [simp]:
  "seqNum (data_buffer (free_slot s i) ! j) = seqNum (data_buffer s ! j)"
  by (cases "i < length (data_buffer s)")
     (simp_all add: free_slot_def nth_list_update list_update_beyond not_less)

text \<open>The loop of \<open>Clear\<close> over the first \<open>n\<close> slots.\<close>

lemma fold_free_slot:
  "n \<le> length (sequence_buffer s) \<Longrightarrow>
   cur_size (fold (\<lambda>i t. free_slot t i) [0..<n] s) = cur_size s \<and>
   max_size (fold (\<lambda>i t. free_slot t i) [0..<n] s) = max_size s \<and>
   length (sequence_buffer (fold (\<lambda>i t. free_slot t i) [0..<n] s)) = length (sequence_buffer s) \<and>
   length (data_buffer (fold (\<lambda>i t. free_slot t i) [0..<n] s)) = length (data_buffer s) \<and>
   (\<forall>j < length (sequence_buffer s).
      sequence_buffer (fold (\<lambda>i t. free_slot t i) [0..<n] s) ! j =
        (if j < n then (sequence_buffer s ! j)\<lparr>used := False\<rparr> else sequence_buffer s ! j)) \<and>
   (\<forall>j. seqNum (data_buffer (fold (\<lambda>i t. free_slot t i) [0..<n] s) ! j)
          = seqNum (data_buffer s ! j))"
proof (induction n)
  case 0
  then show ?case by simp
next
  case (Suc n)
  then have IH: "cur_size (fold (\<lambda>i t. free_slot t i) [0..<n] s) = cur_size s"
    "max_size (fold (\<lambda>i t. free_slot t i) [0..<n] s) = max_size s"
    "length (sequence_buffer (fold (\<lambda>i t. free_slot t i) [0..<n] s)) = length (sequence_buffer s)"
    "length (data_buffer (fold (\<lambda>i t. free_slot t i) [0..<n] s)) = length (data_buffer s)"
    "\<And>j. j < length (sequence_buffer s) \<Longrightarrow>
      sequence_buffer (fold (\<lambda>i t. free_slot t i) [0..<n] s) ! j =
        (if j < n then (sequence_buffer s ! j)\<lparr>used := False\<rparr> else sequence_buffer s ! j)"
    "\<And>j. seqNum (data_buffer (fold (\<lambda>i t. free_slot t i) [0..<n] s) ! j)
          = seqNum (data_buffer s ! j)"
    by simp_all
  show ?case
    using Suc.prems by (auto simp: IH free_slot_nth less_Suc_eq)
qed

lemma Clear_props:
  assumes "length (sequence_buffer s) = cur_size s"
  shows "cur_size (Clear s) = cur_size s" and "max_size (Clear s) = max_size s"
    and "length (sequence_buffer (Clear s)) = cur_size s"
    and "length (data_buffer (Clear s)) = length (data_buffer s)"
    and "i < cur_size s \<Longrightarrow> \<not> used (sequence_buffer (Clear s) ! i)"
    and "\<not> first_packet_received (Clear s)"
    and "missing_packets (Clear s) = []"
  using fold_free_slot [of "cur_size s" s] assms
  by (simp_all add: Clear_def)


lemma fold_relocate_length:
  "length (fst (fold (relocate s n) is nb)) = length (fst nb) \<and>
   length (snd (fold (relocate s n) is nb)) = length (snd nb)"
  by (induction "is" arbitrary: nb) (simp_all add: relocate_def Let_def)

lemma ExpandBufferSize_False:
  "ExpandBufferSize s = Inr (False, s') \<Longrightarrow> s' = s \<and> cur_size s = max_size s"
  by (auto simp: ExpandBufferSize_def Let_def split: if_splits)

lemma ExpandBufferSize_True:
  assumes "ExpandBufferSize s = Inr (True, s')"
  shows "cur_size s' = min (max_size s) (2 * cur_size s)" and "max_size s' = max_size s"
    and "length (sequence_buffer s') = cur_size s'" and "length (data_buffer s') = cur_size s'"
    and "cur_size s \<noteq> max_size s"
  using assms fold_relocate_length [of s "min (max_size s) (2 * cur_size s)" "[0..<cur_size s]"
      "(replicate (min (max_size s) (2 * cur_size s)) default_VCMPacket,
        replicate (min (max_size s) (2 * cur_size s)) default_ContinuityInfo)"]
  by (auto simp: ExpandBufferSize_def Let_def split: if_splits)

lemma expand_loop_props:
  assumes "expand_loop s seq = Inr s'"
    and "length (sequence_buffer s) = cur_size s" and "length (data_buffer s) = cur_size s"
  shows "length (sequence_buffer s') = cur_size s' \<and> length (data_buffer s') = cur_size s' \<and>
         max_size s' = max_size s \<and>
         (used (sequence_buffer s' ! (unat seq mod cur_size s')) \<longrightarrow> cur_size s' = max_size s')"
  using assms
proof (induction s seq rule: expand_loop.induct)
  case (1 s seq)
  show ?case
  proof (cases "ExpandBufferSize s")
    case (Inl e)
    with "1.prems" show ?thesis
      by (subst (asm) expand_loop.simps) simp
  next
    case (Inr r)
    show ?thesis
    proof (cases "fst r")
      case False
      then have r: "ExpandBufferSize s = Inr (False, snd r)"
        using Inr by (cases r) simp
      from "1.prems"(1) Inr False have "s' = snd r"
        by (subst (asm) expand_loop.simps) simp
      with ExpandBufferSize_False [OF r] "1.prems" show ?thesis
        by simp
    next
      case True
      then have r: "ExpandBufferSize s = Inr (True, snd r)"
        using Inr by (cases r) simp
      note e = ExpandBufferSize_True [OF r]
      show ?thesis
      proof (cases "cur_size (snd r) \<noteq> 0 \<and>
          used (sequence_buffer (snd r) ! (unat seq mod cur_size (snd r)))")
        case go: True
        with "1.prems"(1) Inr True have "expand_loop (snd r) seq = Inr s'"
          by (subst (asm) expand_loop.simps) simp
        from "1.IH" [OF Inr _ _ _ this] True go e show ?thesis
          by auto
      next
        case stop: False
        with "1.prems"(1) Inr True have "s' = snd r"
          by (subst (asm) expand_loop.simps) (auto split: if_splits)
        with e stop "1.prems"(1) Inr True show ?thesis
          by (subst (asm) expand_loop.simps) (auto split: if_splits)
      qed
    qed
  qed
qed

lemma filter_upt_single:
  assumes "i < n" and "P i" and "\<And>j. j < n \<Longrightarrow> j \<noteq> i \<Longrightarrow> \<not> P j"
  shows "filter P [0..<n] = [i]"
proof -
  have "filter P [0..<n] = filter (\<lambda>j. j = i) [0..<n]"
    using assms by (intro filter_cong) auto
  also have "\<dots> = [i]"
    using \<open>i < n\<close> by (induction n) (auto simp: less_Suc_eq)
  finally show ?thesis .
qed

lemma map_of_delete_array:
  "map_of (delete_array (Some a) h) a = None"
  by (induction h) (auto simp: delete_array_def)

section \<open>InsertPacket\<close>

text \<open>
  The conditions of \<open>InsertPacket\<close>, on the state at the call: the packet is behind a
  marker that \<open>ClearTo\<close> set (\<open>stale_packet\<close>); its slot holds another sequence number
  (\<open>collides\<close>); and the slot is still taken after the expansions (\<open>overflows\<close>).
\<close>

definition stale_packet :: "PacketBuffer \<Rightarrow> VCMPacket \<Rightarrow> bool" where
  "stale_packet s packet =
     (first_packet_received s \<and> AheadOf (first_seq_num s) (seqNum packet)
      \<and> is_cleared_to_first_seq_num s)"

definition target_slot :: "PacketBuffer \<Rightarrow> VCMPacket \<Rightarrow> nat" where
  "target_slot s packet = unat (seqNum packet) mod cur_size s"

definition duplicates :: "PacketBuffer \<Rightarrow> VCMPacket \<Rightarrow> bool" where
  "duplicates s packet =
     (\<not> stale_packet s packet \<and> used (sequence_buffer s ! target_slot s packet)
      \<and> seqNum (data_buffer s ! target_slot s packet) = seqNum packet)"

definition collides :: "PacketBuffer \<Rightarrow> VCMPacket \<Rightarrow> bool" where
  "collides s packet =
     (\<not> stale_packet s packet \<and> used (sequence_buffer s ! target_slot s packet)
      \<and> seqNum (data_buffer s ! target_slot s packet) \<noteq> seqNum packet)"

definition grown :: "PacketBuffer \<Rightarrow> VCMPacket \<Rightarrow> error + PacketBuffer" where
  "grown s packet =
     expand_loop (note_first_seq_num (OnTimestampReceived s (timestamp packet)) (seqNum packet))
       (seqNum packet)"

definition overflows :: "PacketBuffer \<Rightarrow> VCMPacket \<Rightarrow> bool" where
  "overflows s packet =
     (collides s packet \<and>
      (case grown s packet of
         Inl e \<Rightarrow> False
       | Inr s2 \<Rightarrow> used (sequence_buffer s2 ! target_slot s2 packet)))"

definition used_slots :: "PacketBuffer \<Rightarrow> nat list" where
  "used_slots s = filter (\<lambda>i. used (sequence_buffer s ! i)) [0..<cur_size s]"

definition slots_holding :: "PacketBuffer \<Rightarrow> 16 word \<Rightarrow> nat list" where
  "slots_holding s seq =
     filter (\<lambda>i. used (sequence_buffer s ! i) \<and> seq_num (sequence_buffer s ! i) = seq)
       [0..<cur_size s]"

text \<open>
  The invariant of the ring: both vectors have \<open>size_\<close> slots, and a used slot \<open>i\<close>
  holds the same sequence number in both, one with \<open>seq_num mod size_ = i\<close>.
\<close>

definition sized :: "PacketBuffer \<Rightarrow> bool" where
  "sized s = (length (sequence_buffer s) = cur_size s \<and> length (data_buffer s) = cur_size s)"

definition ring_inv :: "PacketBuffer \<Rightarrow> bool" where
  "ring_inv s =
     (\<forall>i \<in> set [0..<cur_size s].
        used (sequence_buffer s ! i) \<longrightarrow>
          seq_num (sequence_buffer s ! i) = seqNum (data_buffer s ! i) \<and>
          unat (seq_num (sequence_buffer s ! i)) mod cur_size s = i)"

text \<open>
  C10. A packet behind the first-sequence-number marker, while the buffer is cleared up
  to that marker, is ignored: \<open>InsertPacket\<close> returns true, hands no frame to the
  callback, sets the packet's pointer to null and frees its payload, and leaves both
  vectors, the marker and the missing set as they were.
\<close>

theorem InsertPacket_stale:
  assumes "0 < cur_size s" and "stale_packet s packet"
  shows "\<exists>s'. InsertPacket s packet now_ms = Inr (True, packet\<lparr>dataPtr := None\<rparr>, s', [])
      \<and> sequence_buffer s' = sequence_buffer s \<and> data_buffer s' = data_buffer s
      \<and> cur_size s' = cur_size s \<and> first_seq_num s' = first_seq_num s
      \<and> is_cleared_to_first_seq_num s' = is_cleared_to_first_seq_num s
      \<and> missing_packets s' = missing_packets s
      \<and> newest_inserted_seq_num s' = newest_inserted_seq_num s
      \<and> heap s' = delete_array (dataPtr packet) (heap s)
      \<and> (\<forall>a. dataPtr packet = Some a \<longrightarrow> map_of (heap s') a = None)"
proof -
  let ?s0 = "OnTimestampReceived s (timestamp packet)"
  let ?s' = "?s0\<lparr>heap := delete_array (dataPtr packet) (heap ?s0)\<rparr>"
  have "InsertPacket s packet now_ms = Inr (drop_packet True ?s0 packet)"
    using assms by (simp add: InsertPacket_def stale_packet_def Let_def)
  then have "InsertPacket s packet now_ms = Inr (True, packet\<lparr>dataPtr := None\<rparr>, ?s', [])"
    by (simp add: drop_packet_def)
  moreover have "\<forall>a. dataPtr packet = Some a \<longrightarrow> map_of (heap ?s') a = None"
    by (simp add: map_of_delete_array)
  ultimately show ?thesis
    by (intro exI [of _ ?s']) simp
qed

text \<open>
  A buffer that was cleared up to the marker 10, and a packet with sequence number 5
  whose payload is the array at address 1.
\<close>

definition cleared_buffer :: PacketBuffer where
  "cleared_buffer =
     (new_PacketBuffer 2 4 False)
       \<lparr>first_seq_num := 10, first_packet_received := True,
        is_cleared_to_first_seq_num := True, heap := [(1, [0xAB])]\<rparr>"

definition old_packet :: VCMPacket where
  "old_packet = (test_packet 5 7 False False)\<lparr>dataPtr := Some 1, sizeBytes := 1\<rparr>"

theorem InsertPacket_stale_witness:
  "0 < cur_size cleared_buffer \<and> stale_packet cleared_buffer old_packet
   \<and> (\<exists>s'. InsertPacket cleared_buffer old_packet 0
              = Inr (True, old_packet\<lparr>dataPtr := None\<rparr>, s', [])
          \<and> sequence_buffer s' = sequence_buffer cleared_buffer
          \<and> heap s' = [])"
proof -
  have h1: "0 < cur_size cleared_buffer"
    by (simp add: cleared_buffer_def new_PacketBuffer_def)
  have h2: "stale_packet cleared_buffer old_packet"
    by (simp add: stale_packet_def cleared_buffer_def new_PacketBuffer_def old_packet_def
          test_packet_def default_VCMPacket_def AheadOf_def AheadOrAt_def ForwardDiff_def)
  have h3: "delete_array (dataPtr old_packet) (heap cleared_buffer) = []"
    by (simp add: delete_array_def cleared_buffer_def new_PacketBuffer_def old_packet_def
          test_packet_def default_VCMPacket_def)
  from InsertPacket_stale [OF h1 h2, of 0] h1 h2 h3 show ?thesis
    by auto
qed

text \<open>
  What \<open>InsertPacket\<close> returns when it returns, on a buffer whose vectors have
  \<open>size_ > 0\<close> slots: false exactly on overflow; a duplicate makes it return true with
  the payload freed, both vectors unchanged and, under the invariant of the ring, exactly
  one slot holding the sequence number; and on overflow, where the slot is still taken
  after the expansions, it does return false, at maximal capacity, with no used slot left.
\<close>

theorem InsertPacket_returns:
  assumes "0 < cur_size s" and "sized s"
  shows "(\<forall>r. InsertPacket s packet now_ms = Inr r \<longrightarrow> fst r = (\<not> overflows s packet))
    \<and> (duplicates s packet \<longrightarrow>
         (\<exists>s'. InsertPacket s packet now_ms = Inr (True, packet\<lparr>dataPtr := None\<rparr>, s', [])
            \<and> sequence_buffer s' = sequence_buffer s \<and> data_buffer s' = data_buffer s
            \<and> cur_size s' = cur_size s
            \<and> heap s' = delete_array (dataPtr packet) (heap s)
            \<and> (ring_inv s \<longrightarrow> slots_holding s' (seqNum packet) = [target_slot s packet])))
    \<and> (overflows s packet \<longrightarrow>
         (\<exists>s'. InsertPacket s packet now_ms = Inr (False, packet\<lparr>dataPtr := None\<rparr>, s', [])
            \<and> cur_size s' = max_size s' \<and> used_slots s' = []))"
proof (intro conjI allI impI)
  fix r
  assume ret: "InsertPacket s packet now_ms = Inr r"
  let ?s1 = "note_first_seq_num (OnTimestampReceived s (timestamp packet)) (seqNum packet)"
  let ?i = "unat (seqNum packet) mod cur_size s"
  show "fst r = (\<not> overflows s packet)"
  proof (cases "stale_packet s packet")
    case True
    then have "InsertPacket s packet now_ms
        = Inr (drop_packet True (OnTimestampReceived s (timestamp packet)) packet)"
      using assms(1) by (simp add: InsertPacket_def stale_packet_def Let_def)
    with ret True show ?thesis
      by (auto simp: drop_packet_def overflows_def collides_def)
  next
    case ns: False
    show ?thesis
    proof (cases "used (sequence_buffer s ! ?i)")
      case False
      then have "InsertPacket s packet now_ms = insert_at ?s1 ?i packet now_ms"
        using assms(1) ns by (auto simp: InsertPacket_def stale_packet_def Let_def)
      with ret False show ?thesis
        by (auto simp: insert_at_def overflows_def collides_def target_slot_def
              split: sum.splits)
    next
      case u: True
      show ?thesis
      proof (cases "seqNum (data_buffer s ! ?i) = seqNum packet")
        case True
        then have "InsertPacket s packet now_ms = Inr (drop_packet True ?s1 packet)"
          using assms(1) ns u by (auto simp: InsertPacket_def stale_packet_def Let_def)
        with ret True show ?thesis
          by (auto simp: drop_packet_def overflows_def collides_def target_slot_def)
      next
        case d: False
        have c: "collides s packet"
          using ns u d by (simp add: collides_def target_slot_def)
        have unf: "InsertPacket s packet now_ms =
            (case expand_loop ?s1 (seqNum packet) of
               Inl e \<Rightarrow> Inl e
             | Inr s2 \<Rightarrow>
                 if used (sequence_buffer s2 ! (unat (seqNum packet) mod cur_size s2))
                 then Inr (drop_packet False (Clear s2) packet)
                 else insert_at s2 (unat (seqNum packet) mod cur_size s2) packet now_ms)"
          using assms(1) ns u d by (auto simp: InsertPacket_def stale_packet_def Let_def)
        show ?thesis
        proof (cases "expand_loop ?s1 (seqNum packet)")
          case (Inl e)
          with ret unf show ?thesis by simp
        next
          case (Inr s2)
          show ?thesis
          proof (cases "used (sequence_buffer s2 ! (unat (seqNum packet) mod cur_size s2))")
            case True
            with ret unf Inr c show ?thesis
              by (auto simp: drop_packet_def overflows_def grown_def target_slot_def)
          next
            case False
            with ret unf Inr c show ?thesis
              by (auto simp: insert_at_def overflows_def grown_def target_slot_def
                    split: sum.splits)
          qed
        qed
      qed
    qed
  qed
next
  assume d: "duplicates s packet"
  let ?s1 = "note_first_seq_num (OnTimestampReceived s (timestamp packet)) (seqNum packet)"
  let ?s' = "?s1\<lparr>heap := delete_array (dataPtr packet) (heap ?s1)\<rparr>"
  have ins: "InsertPacket s packet now_ms = Inr (True, packet\<lparr>dataPtr := None\<rparr>, ?s', [])"
    using d assms(1)
    by (auto simp: InsertPacket_def duplicates_def stale_packet_def target_slot_def
          drop_packet_def Let_def)
  have one: "slots_holding ?s' (seqNum packet) = [target_slot s packet]" if inv: "ring_inv s"
    unfolding slots_holding_def
  proof (rule filter_upt_single)
    show "target_slot s packet < cur_size ?s'"
      using assms(1) by (simp add: target_slot_def)
    show "used (sequence_buffer ?s' ! target_slot s packet) \<and>
        seq_num (sequence_buffer ?s' ! target_slot s packet) = seqNum packet"
      using d inv assms(1) by (auto simp: duplicates_def ring_inv_def target_slot_def)
    show "\<not> (used (sequence_buffer ?s' ! j) \<and> seq_num (sequence_buffer ?s' ! j) = seqNum packet)"
      if "j < cur_size ?s'" and "j \<noteq> target_slot s packet" for j
      using that inv by (auto simp: ring_inv_def target_slot_def)
  qed
  show "\<exists>s'. InsertPacket s packet now_ms = Inr (True, packet\<lparr>dataPtr := None\<rparr>, s', [])
      \<and> sequence_buffer s' = sequence_buffer s \<and> data_buffer s' = data_buffer s
      \<and> cur_size s' = cur_size s
      \<and> heap s' = delete_array (dataPtr packet) (heap s)
      \<and> (ring_inv s \<longrightarrow> slots_holding s' (seqNum packet) = [target_slot s packet])"
    using ins one by (intro exI [of _ ?s']) simp
next
  assume o: "overflows s packet"
  let ?s1 = "note_first_seq_num (OnTimestampReceived s (timestamp packet)) (seqNum packet)"
  from o obtain s2 where g: "expand_loop ?s1 (seqNum packet) = Inr s2"
    and u: "used (sequence_buffer s2 ! (unat (seqNum packet) mod cur_size s2))"
    by (auto simp: overflows_def grown_def target_slot_def split: sum.splits)
  have p: "length (sequence_buffer s2) = cur_size s2" "cur_size s2 = max_size s2"
    using expand_loop_props [OF g] assms(2) u by (simp_all add: sized_def)
  let ?s' = "(Clear s2)\<lparr>heap := delete_array (dataPtr packet) (heap (Clear s2))\<rparr>"
  have ins: "InsertPacket s packet now_ms = Inr (False, packet\<lparr>dataPtr := None\<rparr>, ?s', [])"
    using o g u assms(1)
    by (auto simp: InsertPacket_def overflows_def collides_def stale_packet_def target_slot_def
          drop_packet_def Let_def)
  have "used_slots ?s' = []"
    using Clear_props(1,5) [OF p(1)] by (auto simp: used_slots_def filter_empty_conv)
  moreover have "cur_size ?s' = max_size ?s'"
    using Clear_props(1,2) [OF p(1)] p(2) by simp
  ultimately show "\<exists>s'. InsertPacket s packet now_ms = Inr (False, packet\<lparr>dataPtr := None\<rparr>, s', [])
      \<and> cur_size s' = max_size s' \<and> used_slots s' = []"
    using ins by (intro exI [of _ ?s']) simp
qed


text \<open>
  A buffer of one slot at its maximal capacity that holds packet 0, and the packet 1,
  which needs the same slot.
\<close>

definition full_buffer :: PacketBuffer where
  "full_buffer = store_packet (new_PacketBuffer 1 1 False) 0 (test_packet 0 7 False False)"

definition next_packet :: VCMPacket where
  "next_packet = test_packet 1 7 False False"

theorem InsertPacket_returns_witness:
  "0 < cur_size two_packets \<and> sized two_packets \<and> ring_inv two_packets
   \<and> duplicates two_packets next_packet
   \<and> (\<exists>s'. InsertPacket two_packets next_packet 0
              = Inr (True, next_packet\<lparr>dataPtr := None\<rparr>, s', [])
          \<and> slots_holding s' 1 = [1])
   \<and> 0 < cur_size full_buffer \<and> sized full_buffer
   \<and> overflows full_buffer next_packet
   \<and> (\<exists>s'. InsertPacket full_buffer next_packet 0
              = Inr (False, next_packet\<lparr>dataPtr := None\<rparr>, s', [])
          \<and> used_slots s' = [])"
proof -
  have a1: "0 < cur_size two_packets" and a2: "sized two_packets"
    and a3: "ring_inv two_packets" and a4: "duplicates two_packets next_packet"
    by code_simp+
  have b1: "0 < cur_size full_buffer" and b2: "sized full_buffer"
    and b3: "overflows full_buffer next_packet"
    by code_simp+
  have t: "target_slot two_packets next_packet = 1" and sq: "seqNum next_packet = 1"
    by code_simp+
  from InsertPacket_returns [OF a1 a2, of next_packet 0] a3 a4
  have dup: "\<exists>s'. InsertPacket two_packets next_packet 0
              = Inr (True, next_packet\<lparr>dataPtr := None\<rparr>, s', [])
          \<and> slots_holding s' 1 = [1]"
    unfolding t sq by blast
  from InsertPacket_returns [OF b1 b2, of next_packet 0] b3
  have ovf: "\<exists>s'. InsertPacket full_buffer next_packet 0
              = Inr (False, next_packet\<lparr>dataPtr := None\<rparr>, s', [])
          \<and> used_slots s' = []"
    by blast
  from a1 a2 a3 a4 b1 b2 b3 dup ovf show ?thesis
    by blast
qed

text \<open>
  An H.264 packet with the given sequence number, timestamp, flags and NAL unit types.
\<close>

definition h264_packet :: "16 word \<Rightarrow> 32 word \<Rightarrow> bool \<Rightarrow> bool \<Rightarrow> NaluType list \<Rightarrow> VCMPacket" where
  "h264_packet seq ts is_first is_last ns =
     default_VCMPacket\<lparr>seqNum := seq, timestamp := ts,
       video_header := default_RTPVideoHeader\<lparr>codec := kVideoCodecH264,
         is_first_packet_in_frame := is_first, is_last_packet_in_frame := is_last,
         video_type_header := H264Header \<lparr>nalus = ns, nalus_length = length ns\<rparr>\<rparr>\<rparr>"

text \<open>
  The state of a new buffer of four slots after \<open>InsertPacket\<close> of the H.264 packet 1
  with timestamp 100 at time 0.
\<close>

definition one_h264_packet :: PacketBuffer where
  "one_h264_packet =
     (store_packet (new_PacketBuffer 4 4 False) 1 (h264_packet 1 100 False False [kSlice]))
       \<lparr>first_seq_num := 1, first_packet_received := True,
        last_received_packet_ms := Some 0, newest_inserted_seq_num := Some 1,
        unique_frames_seen := 1, rtp_timestamps_history_set := {100},
        rtp_timestamps_history_queue := [100]\<rparr>"

text \<open>
  C1 fails on the code: \<open>InsertPacket\<close> does not always return. A new buffer of four
  slots takes the H.264 packet 1 with timestamp 100 and returns true. The H.264 packet 6
  with the same timestamp, first and last of its frame and with an IDR unit, is then
  neither stale nor an overflow (its slot 2 is free). But the walk of \<open>FindFrames\<close>
  steps back from slot 2 to slot 1 on the equal timestamp and counts \<open>start_seq_num\<close>
  down to 5; \<open>GetPacket(5)\<close> is \<open>nullptr\<close>, since slot 1 holds packet 1, and
  \<open>first_packet->timestamp\<close> dereferences it: the call does not return.
\<close>

theorem InsertPacket_null_first_packet:
  "InsertPacket (new_PacketBuffer 4 4 False) (h264_packet 1 100 False False [kSlice]) 0
     = Inr (True, (h264_packet 1 100 False False [kSlice])\<lparr>dataPtr := None\<rparr>,
            one_h264_packet, [])
   \<and> \<not> stale_packet one_h264_packet (h264_packet 6 100 True True [kIdr])
   \<and> \<not> overflows one_h264_packet (h264_packet 6 100 True True [kIdr])
   \<and> InsertPacket one_h264_packet (h264_packet 6 100 True True [kIdr]) 0 = Inl NullDeref"
  by code_simp

section \<open>ClearTo\<close>

lemma AheadOf_succ: "AheadOf (n + 1) n"
  by (simp add: AheadOf_def AheadOrAt_def ForwardDiff_def)

lemma ClearTo_loop_fields [simp]:
  "cur_size (ClearTo_loop n seq s) = cur_size s"
  "max_size (ClearTo_loop n seq s) = max_size s"
  "first_packet_received (ClearTo_loop n seq s) = first_packet_received s"
  "is_cleared_to_first_seq_num (ClearTo_loop n seq s) = is_cleared_to_first_seq_num s"
  "newest_inserted_seq_num (ClearTo_loop n seq s) = newest_inserted_seq_num s"
  "missing_packets (ClearTo_loop n seq s) = missing_packets s"
  by (induction n arbitrary: s) (simp_all add: Let_def)

lemma ClearTo_skipped:
  "is_cleared_to_first_seq_num s \<and> AheadOf (first_seq_num s) N \<or> \<not> first_packet_received s
   \<Longrightarrow> ClearTo s N = s"
  by (auto simp: ClearTo_def)

lemma ClearTo_done:
  assumes "\<not> (is_cleared_to_first_seq_num s \<and> AheadOf (first_seq_num s) N)"
    and "first_packet_received s"
  shows "first_seq_num (ClearTo s N) = N + 1" and "is_cleared_to_first_seq_num (ClearTo s N)"
    and "first_packet_received (ClearTo s N)"
  using assms by (auto simp: ClearTo_def Let_def)

text \<open>
  Two states after a first packet: one whose marker 100 was set by an earlier \<open>ClearTo\<close>,
  and the buffer of two packets with the marker at packet 0.
\<close>

definition cleared_at_100 :: PacketBuffer where
  "cleared_at_100 =
     (new_PacketBuffer 2 4 False)
       \<lparr>first_seq_num := 100, first_packet_received := True,
        is_cleared_to_first_seq_num := True\<rparr>"

definition two_received :: PacketBuffer where
  "two_received = two_packets\<lparr>first_packet_received := True\<rparr>"

text \<open>
  C8 as stated fails at the far side of the circle. With the cleared marker at 100,
  \<open>ClearTo(45636)\<close> is skipped (45636 is behind the marker), and 25636 is behind 45636,
  yet \<open>ClearTo(25636)\<close> moves the marker: 25636 is not behind 100. And after a
  \<open>ClearTo(5)\<close> that did its work, 32774 is behind 5 by 32767 but not behind the new
  marker 6.
\<close>

theorem ClearTo_idempotent_counterexample:
  "AheadOf 45636 25636
   \<and> ClearTo (ClearTo cleared_at_100 45636) 25636 \<noteq> ClearTo cleared_at_100 45636
   \<and> AheadOf 5 32774
   \<and> ClearTo (ClearTo two_received 5) 32774 \<noteq> ClearTo two_received 5"
proof -
  have s1: "ClearTo cleared_at_100 45636 = cleared_at_100"
    by (rule ClearTo_skipped)
       (simp add: cleared_at_100_def new_PacketBuffer_def AheadOf_def AheadOrAt_def
          ForwardDiff_def)
  have "first_seq_num (ClearTo cleared_at_100 25636) = 25636 + 1"
    by (rule ClearTo_done)
       (simp_all add: cleared_at_100_def new_PacketBuffer_def AheadOf_def AheadOrAt_def
          ForwardDiff_def)
  moreover have "first_seq_num cleared_at_100 = 100"
    by (simp add: cleared_at_100_def)
  ultimately have "first_seq_num (ClearTo cleared_at_100 25636) \<noteq> first_seq_num cleared_at_100"
    by simp
  then have "ClearTo cleared_at_100 25636 \<noteq> cleared_at_100"
    by (rule contrapos_nn) (erule arg_cong)
  then have a: "ClearTo (ClearTo cleared_at_100 45636) 25636 \<noteq> ClearTo cleared_at_100 45636"
    unfolding s1 .
  have r: "first_packet_received two_received" "\<not> is_cleared_to_first_seq_num two_received"
    by (simp_all add: two_received_def two_packets_def set_continuous_def store_packet_def
          new_PacketBuffer_def)
  have f: "first_seq_num (ClearTo two_received 5) = 5 + 1"
    and c: "is_cleared_to_first_seq_num (ClearTo two_received 5)"
    and p: "first_packet_received (ClearTo two_received 5)"
    using r by (simp_all add: ClearTo_done)
  have "first_seq_num (ClearTo (ClearTo two_received 5) 32774) = 32774 + 1"
    using p by (rule ClearTo_done [rotated])
      (simp add: f AheadOf_def AheadOrAt_def ForwardDiff_def)
  with f have "first_seq_num (ClearTo (ClearTo two_received 5) 32774)
      \<noteq> first_seq_num (ClearTo two_received 5)"
    by simp
  then have b: "ClearTo (ClearTo two_received 5) 32774 \<noteq> ClearTo two_received 5"
    by (rule contrapos_nn) (erule arg_cong)
  have "AheadOf 45636 25636" and "AheadOf 5 32774"
    by (simp_all add: AheadOf_def AheadOrAt_def ForwardDiff_def)
  with a b show ?thesis
    by (intro conjI)
qed

lemma ClearTo_moves:
  assumes "first_packet_received s" and "\<not> AheadOf (first_seq_num s) M"
  shows "ClearTo s M \<noteq> s"
proof -
  have "first_seq_num (ClearTo s M) = M + 1"
    using assms by (auto simp: ClearTo_def Let_def)
  moreover have "first_seq_num s \<noteq> M + 1"
    using assms(2) AheadOf_succ [of M] by auto
  ultimately have "first_seq_num (ClearTo s M) \<noteq> first_seq_num s"
    by simp
  then show ?thesis
    by (rule contrapos_nn) (erule arg_cong)
qed

lemma ClearTo_cleared:
  "first_packet_received s \<Longrightarrow> is_cleared_to_first_seq_num (ClearTo s N)"
  by (auto simp: ClearTo_def Let_def)

lemma ClearTo_received [simp]:
  "first_packet_received (ClearTo s N) = first_packet_received s"
  by (auto simp: ClearTo_def Let_def)

text \<open>
  C8, amended. After \<open>ClearTo(N)\<close>, a second call \<open>ClearTo(M)\<close> leaves the whole state
  unchanged if and only if no packet has been received since the buffer was made or last
  reset, or \<open>M\<close> is behind the first-sequence-number marker that the first call left.
  This is so for \<open>M = N\<close>. The marker is \<open>N + 1\<close> when the first call did its work (a
  packet had been received and \<open>N\<close> was not behind an explicitly cleared marker), and the
  earlier marker when the first call was skipped.
\<close>

theorem ClearTo_idempotent:
  "(ClearTo (ClearTo s N) M = ClearTo s N
      \<longleftrightarrow> \<not> first_packet_received s \<or> AheadOf (first_seq_num (ClearTo s N)) M)
   \<and> (M = N \<longrightarrow> ClearTo (ClearTo s N) M = ClearTo s N)
   \<and> (first_packet_received s
        \<and> \<not> (is_cleared_to_first_seq_num s \<and> AheadOf (first_seq_num s) N)
      \<longrightarrow> first_seq_num (ClearTo s N) = N + 1)"
proof -
  let ?t = "ClearTo s N"
  have noop: "ClearTo ?t M = ?t"
    if "\<not> first_packet_received s \<or> AheadOf (first_seq_num ?t) M" for M
  proof (cases "first_packet_received s")
    case False
    then show ?thesis by (simp add: ClearTo_skipped)
  next
    case True
    with that have "is_cleared_to_first_seq_num ?t \<and> AheadOf (first_seq_num ?t) M"
      by (simp add: ClearTo_cleared)
    then show ?thesis by (simp add: ClearTo_skipped)
  qed
  have moves: "ClearTo ?t M \<noteq> ?t"
    if "first_packet_received s" and "\<not> AheadOf (first_seq_num ?t) M"
    using that by (intro ClearTo_moves) simp_all
  have same: "\<not> first_packet_received s \<or> AheadOf (first_seq_num ?t) N"
  proof (cases "is_cleared_to_first_seq_num s \<and> AheadOf (first_seq_num s) N")
    case True
    then show ?thesis by (simp add: ClearTo_skipped)
  next
    case False
    show ?thesis
    proof (cases "first_packet_received s")
      case True
      with False have "first_seq_num ?t = N + 1" by (simp add: ClearTo_done)
      then show ?thesis by (simp add: AheadOf_succ)
    qed simp
  qed
  have a: "ClearTo ?t M = ?t
      \<longleftrightarrow> \<not> first_packet_received s \<or> AheadOf (first_seq_num ?t) M"
    using noop [of M] moves by blast
  have b: "M = N \<longrightarrow> ClearTo ?t M = ?t"
    using noop [of N] same by blast
  have c: "first_packet_received s
        \<and> \<not> (is_cleared_to_first_seq_num s \<and> AheadOf (first_seq_num s) N)
      \<longrightarrow> first_seq_num ?t = N + 1"
    by (simp add: ClearTo_done)
  from a b c show ?thesis by (intro conjI)
qed

theorem ClearTo_idempotent_witness:
  "first_packet_received two_received
   \<and> AheadOf (first_seq_num (ClearTo two_received 1)) 0
   \<and> ClearTo (ClearTo two_received 1) 0 = ClearTo two_received 1
   \<and> ClearTo (ClearTo two_received 1) 1 = ClearTo two_received 1
   \<and> \<not> AheadOf (first_seq_num (ClearTo two_received 1)) 2
   \<and> ClearTo (ClearTo two_received 1) 2 \<noteq> ClearTo two_received 1
   \<and> first_seq_num (ClearTo two_received 1) = 2
   \<and> used_slots (ClearTo two_received 1) = []"
proof -
  have r: "first_packet_received two_received"
    and i: "\<not> is_cleared_to_first_seq_num two_received"
    and h: "AheadOf (first_seq_num (ClearTo two_received 1)) 0"
    and n: "\<not> AheadOf (first_seq_num (ClearTo two_received 1)) 2"
    and u: "used_slots (ClearTo two_received 1) = []"
    by code_simp+
  from ClearTo_idempotent [of two_received 1 0] ClearTo_idempotent [of two_received 1 1]
    ClearTo_idempotent [of two_received 1 2] r i h n u
  show ?thesis
    by simp
qed

section \<open>Circular distances\<close>

lemma unat_diff16:
  "unat ((a::16 word) - b) = (if unat b \<le> unat a then unat a - unat b else unat a + 65536 - unat b)"
  by (simp add: unat_sub_if_size word_size)

lemma unat_bound16: "unat (a::16 word) < 65536"
proof -
  have "unat a < 2 ^ LENGTH(16)" by (rule unsigned_less)
  then show ?thesis by simp
qed

lemma AheadOf_iff:
  "AheadOf a b \<longleftrightarrow>
     a \<noteq> b \<and> (unat (a - b) < 32768 \<or> unat (a - b) = 32768 \<and> unat b < unat a)"
proof -
  have "(a - b = 0x8000) = (unat (a - b) = 32768)"
    by (simp add: word_unat_eq_iff)
  moreover have "(a - b < 0x8000) = (unat (a - b) < 32768)"
    by (simp add: word_less_nat_alt)
  ultimately show ?thesis
    by (auto simp: AheadOf_def AheadOrAt_def ForwardDiff_def word_less_nat_alt)
qed

lemma AheadOf_total: "a \<noteq> b \<Longrightarrow> AheadOf a b \<or> AheadOf b a"
  using unat_bound16 [of a] unat_bound16 [of b]
  by (auto simp: AheadOf_iff unat_diff16 word_unat_eq_iff)

lemma AheadOf_asym: "AheadOf a b \<Longrightarrow> \<not> AheadOf b a"
  using unat_bound16 [of a] unat_bound16 [of b]
  by (auto simp: AheadOf_iff unat_diff16 word_unat_eq_iff split: if_splits)

lemma AheadOf_near: "1 \<le> unat (a - b) \<Longrightarrow> unat (a - b) < 32768 \<Longrightarrow> AheadOf a b"
  by (auto simp: AheadOf_iff)

lemma AheadOf_dist: "AheadOf a b \<Longrightarrow> 1 \<le> unat (a - b) \<and> unat (a - b) \<le> 32768"
  using unat_bound16 [of a] unat_bound16 [of b]
  by (auto simp: AheadOf_iff unat_diff16 word_unat_eq_iff split: if_splits)


section \<open>The ordered set\<close>

lemma set_set_insert: "set (set_insert x ms) = insert x (set ms)"
proof (induction ms)
  case Nil
  show ?case by simp
next
  case (Cons e es)
  show ?case
  proof (cases "e = x")
    case True
    then show ?thesis using AheadOf_asym [of x x] by (auto simp: seq_less_def)
  next
    case False
    with AheadOf_total [of e x] Cons show ?thesis
      by (auto simp: seq_less_def)
  qed
qed

lemma set_set_erase: "set (set_erase x ms) \<subseteq> set ms"
  by (induction ms) auto

lemma sorted_set_erase: "sorted_wrt seq_less ms \<Longrightarrow> sorted_wrt seq_less (set_erase x ms)"
proof (induction ms)
  case Nil
  show ?case by simp
next
  case (Cons e es)
  then show ?case
    using set_set_erase [of x es] by auto
qed

lemma set_erase_removes: "sorted_wrt seq_less ms \<Longrightarrow> x \<notin> set (set_erase x ms)"
proof (induction ms)
  case Nil
  show ?case by simp
next
  case (Cons e es)
  have irr: "\<not> seq_less x x"
    using AheadOf_asym [of x x] by (auto simp: seq_less_def)
  show ?case
  proof (cases "seq_less e x")
    case True
    with Cons irr show ?thesis by auto
  next
    case ne: False
    show ?thesis
    proof (cases "seq_less x e")
      case True
      have "x \<notin> set es"
      proof
        assume "x \<in> set es"
        with Cons.prems have "seq_less e x" by simp
        with ne show False by simp
      qed
      with True ne irr show ?thesis by auto
    next
      case False
      with ne have "e = x"
        using AheadOf_total [of e x] by (auto simp: seq_less_def)
      moreover have "x \<notin> set es"
      proof
        assume "x \<in> set es"
        with Cons.prems \<open>e = x\<close> have "seq_less x x" by simp
        with irr show False by simp
      qed
      ultimately show ?thesis using False ne by simp
    qed
  qed
qed

lemma dropWhile_sorted_first:
  "sorted_wrt R xs \<Longrightarrow> e \<in> set (dropWhile P xs)
   \<Longrightarrow> \<exists>e0 \<in> set xs. \<not> P e0 \<and> (e = e0 \<or> R e0 e)"
  by (induction xs) (auto split: if_splits)

lemma sorted_dropWhile: "sorted_wrt R xs \<Longrightarrow> sorted_wrt R (dropWhile P xs)"
  by (induction xs) auto

section \<open>UpdateMissingPackets\<close>

lemma insert_missing_loop_result:
  "unat (seq - m) < 32768 \<Longrightarrow>
   fst (insert_missing_loop seq m ms) = seq \<and>
   set (snd (insert_missing_loop seq m ms))
     = set ms \<union> {x. 1 \<le> unat (seq - x) \<and> unat (seq - x) \<le> unat (seq - m)}"
proof (induction seq m ms rule: insert_missing_loop.induct)
  case (1 seq m ms)
  show ?case
  proof (cases "AheadOf seq m")
    case False
    with "1.prems" have "seq = m"
      by (auto simp: AheadOf_iff)
    moreover from False have "insert_missing_loop seq m ms = (m, ms)"
      by (subst insert_missing_loop.simps) simp
    ultimately show ?thesis
      by auto
  next
    case True
    have k: "1 \<le> unat (seq - m)"
      using AheadOf_dist [OF True] by simp
    have e: "seq - (m + 1) = seq - m - 1" by simp
    have k1: "unat (seq - (m + 1)) = unat (seq - m) - 1"
      unfolding e using k by (simp add: unat_minus_one unat_eq_zero [symmetric])
    have unf: "insert_missing_loop seq m ms = insert_missing_loop seq (m + 1) (set_insert m ms)"
      using True by (subst insert_missing_loop.simps) simp
    have "{x. 1 \<le> unat (seq - x) \<and> unat (seq - x) \<le> unat (seq - m)}
        = insert m {x. 1 \<le> unat (seq - x) \<and> unat (seq - x) \<le> unat (seq - m) - 1}"
    proof (rule set_eqI)
      fix x
      have "unat (seq - x) = unat (seq - m) \<longleftrightarrow> seq - x = seq - m"
        by (simp only: word_unat_eq_iff)
      then have inj: "unat (seq - x) = unat (seq - m) \<longleftrightarrow> x = m"
        by simp
      show "x \<in> {x. 1 \<le> unat (seq - x) \<and> unat (seq - x) \<le> unat (seq - m)}
        \<longleftrightarrow> x \<in> insert m {x. 1 \<le> unat (seq - x) \<and> unat (seq - x) \<le> unat (seq - m) - 1}"
      proof (cases "x = m")
        case True
        then show ?thesis using k by simp
      next
        case False
        with inj have "unat (seq - x) \<noteq> unat (seq - m)" by simp
        with False show ?thesis by (simp, arith)
      qed
    qed
    moreover from "1.IH" [OF True] "1.prems" k1
    have "fst (insert_missing_loop seq (m + 1) (set_insert m ms)) = seq \<and>
       set (snd (insert_missing_loop seq (m + 1) (set_insert m ms)))
         = insert m (set ms) \<union> {x. 1 \<le> unat (seq - x) \<and> unat (seq - x) \<le> unat (seq - m) - 1}"
      by (simp add: set_set_insert)
    ultimately show ?thesis
      unfolding unf by auto
  qed
qed


lemma unat_between:
  fixes x n seq :: "16 word"
  assumes "unat (x - n) \<le> unat (seq - n)"
  shows "unat (seq - x) = unat (seq - n) - unat (x - n)"
proof -
  have e: "(seq - n) - (x - n) = seq - x" by simp
  have "x - n \<le> seq - n" using assms by (simp add: word_le_nat_alt)
  then have "unat ((seq - n) - (x - n)) = unat (seq - n) - unat (x - n)"
    by (rule unat_sub)
  then show ?thesis unfolding e .
qed

lemma unat_add16:
  fixes x y :: "16 word"
  assumes "unat x + unat y < 65536"
  shows "unat (x + y) = unat x + unat y"
proof -
  have "unat x + unat y < 2 ^ LENGTH(16)" using assms by simp
  then show ?thesis by (simp only: unat_add_lem)
qed

text \<open>
  An entry \<open>e\<close> that \<open>lower_bound\<close> keeps, at or after the first kept entry \<open>e0\<close>, when
  all entries were at most 1000 behind the old marker \<open>n\<close>.
\<close>

lemma kept_bound:
  assumes a: "1 \<le> unat (n - e0)" "unat (n - e0) \<le> 1000"
    and b: "1 \<le> unat (n - e)" "unat (n - e) \<le> 1000"
    and d: "AheadOf seq n" and k: "\<not> AheadOf (seq - 1000) e0"
    and o: "e = e0 \<or> AheadOf e e0" and h: "unat (seq - n) \<noteq> 32768"
  shows "unat (seq - e) \<le> 1000"
proof (rule ccontr)
  assume far: "\<not> unat (seq - e) \<le> 1000"
  define D where "D = unat (seq - n)"
  define A where "A = unat (n - e0)"
  define B where "B = unat (n - e)"
  have D: "1 \<le> D" "D \<le> 32768"
    using AheadOf_dist [OF d] by (simp_all add: D_def)
  have se: "unat (seq - e) = D + B"
  proof -
    have "seq - e = (seq - n) + (n - e)" by simp
    moreover have "unat ((seq - n) + (n - e)) = unat (seq - n) + unat (n - e)"
      using D b by (intro unat_add16) (simp add: D_def)
    ultimately show ?thesis by (simp add: D_def B_def)
  qed
  have BA: "B \<le> A"
  proof (cases "e = e0")
    case True
    then show ?thesis by (simp add: A_def B_def)
  next
    case False
    with o have "AheadOf e e0" by simp
    from AheadOf_dist [OF this] have le: "unat (e - e0) \<le> 32768" by simp
    have "e - e0 = (n - e0) - (n - e)" by simp
    then have "unat (e - e0) = (if B \<le> A then A - B else A + 65536 - B)"
      by (simp only: unat_diff16 A_def B_def)
    with le a b show ?thesis by (auto simp: A_def B_def split: if_splits)
  qed
  have DA: "1000 < D + A"
    using far se BA by simp
  have oe: "unat (seq - 1000 - e0) = D + A - 1000"
  proof -
    have s: "unat ((seq - n) + (n - e0)) = D + A"
      using D a unat_add16 [of "seq - n" "n - e0"] by (simp add: D_def A_def)
    have "(1000 :: 16 word) \<le> (seq - n) + (n - e0)"
      using DA s by (simp add: word_le_nat_alt)
    then have "unat ((seq - n) + (n - e0) - 1000) = unat ((seq - n) + (n - e0)) - unat (1000 :: 16 word)"
      by (rule unat_sub)
    moreover have c: "seq - 1000 - e0 = seq - e0 - 1000" by simp
    ultimately show ?thesis using s by (simp add: c)
  qed
  have "\<not> (1 \<le> unat (seq - 1000 - e0) \<and> unat (seq - 1000 - e0) < 32768)"
    using k AheadOf_near [of "seq - 1000" e0] by auto
  with oe DA have "32768 \<le> D + A - 1000" by arith
  with a D have "D = 32768" unfolding A_def by arith
  with h show False by (simp add: D_def)
qed


lemma unat_ahead_succ:
  assumes "AheadOf seq n"
  shows "unat (seq - (n + 1)) = unat (seq - n) - 1"
proof -
  have e: "seq - (n + 1) = seq - n - 1" by simp
  show ?thesis
    unfolding e using AheadOf_dist [OF assms]
    by (simp add: unat_minus_one unat_eq_zero [symmetric])
qed

lemma jump_bound:
  assumes "AheadOf seq n" and "\<not> AheadOf (seq - 1000) n"
  shows "unat (seq - n) \<le> 1000"
proof (rule ccontr)
  assume "\<not> unat (seq - n) \<le> 1000"
  then have far: "1000 < unat (seq - n)" by simp
  then have "(1000 :: 16 word) \<le> seq - n"
    by (simp add: word_le_nat_alt)
  then have "unat (seq - n - 1000) = unat (seq - n) - unat (1000 :: 16 word)"
    by (rule unat_sub)
  moreover have c: "seq - 1000 - n = seq - n - 1000" by simp
  ultimately have "unat (seq - 1000 - n) = unat (seq - n) - 1000"
    by (simp add: c)
  with far AheadOf_dist [OF assms(1)]
  have "1 \<le> unat (seq - 1000 - n) \<and> unat (seq - 1000 - n) < 32768"
    by arith
  then have "AheadOf (seq - 1000) n"
    by (simp add: AheadOf_near)
  with assms(2) show False by simp
qed

text \<open>
  The ahead branch of \<open>UpdateMissingPackets\<close>: the marker moves to \<open>seq\<close>, and the
  missing set is what \<open>lower_bound\<close> keeps together with the numbers from 1 to \<open>K\<close>
  behind \<open>seq\<close>, where \<open>K\<close> is 999 after a jump of more than 1000.
\<close>

lemma UpdateMissingPackets_ahead:
  assumes "AheadOf seq n"
    and "n = (case newest_inserted_seq_num s of None \<Rightarrow> seq | Some m \<Rightarrow> m)"
  shows "newest_inserted_seq_num (UpdateMissingPackets s seq) = Some seq"
    and "set (missing_packets (UpdateMissingPackets s seq))
      = set (lower_bound (missing_packets s) (seq - 1000))
        \<union> {x. 1 \<le> unat (seq - x) \<and>
               unat (seq - x) \<le> (if AheadOf (seq - 1000) n then 999 else unat (seq - n) - 1)}"
proof -
  define n1 where "n1 = (if AheadOf (seq - 1000) n then seq - 1000 else n)"
  define r where "r = insert_missing_loop seq (n1 + 1) (lower_bound (missing_packets s) (seq - 1000))"
  have s': "UpdateMissingPackets s seq
      = s\<lparr>newest_inserted_seq_num := Some (fst r), missing_packets := snd r\<rparr>"
    using assms by (simp add: UpdateMissingPackets_def Let_def r_def n1_def)
  have "seq - (seq - 1000 + 1) = 999" by simp
  then have "unat (seq - (seq - 1000 + 1)) = 999" by simp
  then have K: "unat (seq - (n1 + 1)) = (if AheadOf (seq - 1000) n then 999 else unat (seq - n) - 1)"
    using unat_ahead_succ [OF assms(1)] by (simp add: n1_def)
  have "unat (seq - (n1 + 1)) < 32768"
    using K AheadOf_dist [OF assms(1)] by (auto split: if_splits)
  from insert_missing_loop_result [OF this, of "lower_bound (missing_packets s) (seq - 1000)"]
  show "newest_inserted_seq_num (UpdateMissingPackets s seq) = Some seq"
    and "set (missing_packets (UpdateMissingPackets s seq))
      = set (lower_bound (missing_packets s) (seq - 1000))
        \<union> {x. 1 \<le> unat (seq - x) \<and>
               unat (seq - x) \<le> (if AheadOf (seq - 1000) n then 999 else unat (seq - n) - 1)}"
    unfolding s' K r_def [symmetric] by simp_all
qed

lemma UpdateMissingPackets_behind:
  assumes "\<not> AheadOf seq n"
    and "n = (case newest_inserted_seq_num s of None \<Rightarrow> seq | Some m \<Rightarrow> m)"
  shows "newest_inserted_seq_num (UpdateMissingPackets s seq) = Some n"
    and "missing_packets (UpdateMissingPackets s seq) = set_erase seq (missing_packets s)"
  using assms by (simp_all add: UpdateMissingPackets_def Let_def)

text \<open>
  The invariant of the missing set: it is in the order of its comparator, and every
  entry is at least 1 and at most 1000 behind the newest inserted sequence number.
\<close>

definition missing_inv :: "PacketBuffer \<Rightarrow> bool" where
  "missing_inv s =
     (sorted_wrt seq_less (missing_packets s) \<and>
      (\<forall>e \<in> set (missing_packets s).
         case newest_inserted_seq_num s of
           None \<Rightarrow> False
         | Some n \<Rightarrow> 1 \<le> unat (n - e) \<and> unat (n - e) \<le> 1000))"


text \<open>A buffer whose newest inserted sequence number is 0, with nothing missing.\<close>

definition newest_at_0 :: PacketBuffer where
  "newest_at_0 = (new_PacketBuffer 2 4 False)\<lparr>newest_inserted_seq_num := Some 0\<rparr>"

lemma window_less:
  assumes "unat (seq - a) \<le> 1000" and "unat (seq - b) \<le> 1000"
  shows "seq_less a b \<longleftrightarrow> unat (seq - b) < unat (seq - a)"
proof -
  define A where "A = unat (seq - a)"
  define B where "B = unat (seq - b)"
  have "b - a = (seq - a) - (seq - b)" by simp
  then have d: "unat (b - a) = (if B \<le> A then A - B else A + 65536 - B)"
    by (simp only: unat_diff16 A_def B_def)
  have "unat (seq - a) = unat (seq - b) \<longleftrightarrow> seq - a = seq - b"
    by (simp only: word_unat_eq_iff)
  then have e: "A = B \<longleftrightarrow> b = a"
    by (auto simp: A_def B_def)
  have AB: "A \<le> 1000" "B \<le> 1000"
    using assms by (simp_all add: A_def B_def)
  show ?thesis
  proof (cases "B < A")
    case True
    with d AB e have "b \<noteq> a" and "unat (b - a) < 32768" by auto
    with True show ?thesis
      by (simp add: seq_less_def AheadOf_iff A_def B_def)
  next
    case False
    show ?thesis
    proof (cases "A = B")
      case True
      with e have "b = a" by simp
      with False show ?thesis
        by (simp add: seq_less_def AheadOf_iff A_def B_def)
    next
      case ne: False
      with False d AB have "32768 < unat (b - a)" by auto
      with False show ?thesis
        by (simp add: seq_less_def AheadOf_iff A_def B_def)
    qed
  qed
qed

lemma sorted_set_insert:
  assumes "sorted_wrt seq_less ms" and "\<forall>e \<in> set ms. unat (seq - e) \<le> 1000"
    and x: "unat (seq - x) \<le> 1000"
  shows "sorted_wrt seq_less (set_insert x ms)"
  using assms(1,2)
proof (induction ms)
  case Nil
  show ?case by simp
next
  case (Cons e es)
  have e: "unat (seq - e) \<le> 1000" using Cons.prems by simp
  have es: "\<forall>y \<in> set es. unat (seq - y) \<le> 1000" using Cons.prems by simp
  have srt: "sorted_wrt seq_less es" and le: "\<forall>y \<in> set es. seq_less e y"
    using Cons.prems by simp_all
  show ?case
  proof (cases "seq_less e x")
    case True
    have "sorted_wrt seq_less (set_insert x es)"
      using srt es by (rule Cons.IH)
    with True le show ?thesis
      by (simp add: set_set_insert)
  next
    case ne: False
    show ?thesis
    proof (cases "seq_less x e")
      case True
      have "seq_less x y" if "y \<in> set es" for y
      proof -
        from that le have "seq_less e y" by simp
        with True es that show ?thesis
          by (simp add: window_less [OF x] window_less [OF e] window_less [OF x e])
      qed
      with True ne Cons.prems show ?thesis by simp
    next
      case False
      with ne Cons.prems show ?thesis by simp
    qed
  qed
qed

lemma insert_missing_loop_sorted:
  "unat (seq - m) \<le> 1000 \<Longrightarrow> sorted_wrt seq_less ms
   \<Longrightarrow> \<forall>e \<in> set ms. unat (seq - e) \<le> 1000
   \<Longrightarrow> sorted_wrt seq_less (snd (insert_missing_loop seq m ms))"
proof (induction seq m ms rule: insert_missing_loop.induct)
  case (1 seq m ms)
  show ?case
  proof (cases "AheadOf seq m")
    case False
    then have "insert_missing_loop seq m ms = (m, ms)"
      by (subst insert_missing_loop.simps) simp
    with "1.prems" show ?thesis by simp
  next
    case True
    have unf: "insert_missing_loop seq m ms = insert_missing_loop seq (m + 1) (set_insert m ms)"
      using True by (subst insert_missing_loop.simps) simp
    have "unat (seq - (m + 1)) \<le> 1000"
      using unat_ahead_succ [OF True] "1.prems"(1) by simp
    moreover have "sorted_wrt seq_less (set_insert m ms)"
      using "1.prems"(2,3,1) by (rule sorted_set_insert)
    moreover have "\<forall>e \<in> set (set_insert m ms). unat (seq - e) \<le> 1000"
      using "1.prems"(1,3) by (simp add: set_set_insert)
    ultimately show ?thesis
      unfolding unf by (rule "1.IH" [OF True])
  qed
qed

lemma kept_dist:
  assumes b: "unat (n - e) \<le> 1000" and d: "AheadOf seq n"
  shows "unat (seq - e) = unat (seq - n) + unat (n - e)"
proof -
  have "seq - e = (seq - n) + (n - e)" by simp
  moreover have "unat ((seq - n) + (n - e)) = unat (seq - n) + unat (n - e)"
    using AheadOf_dist [OF d] b by (intro unat_add16) simp
  ultimately show ?thesis by simp
qed

lemma UpdateMissingPackets_ahead_loop:
  assumes "AheadOf seq n"
    and "n = (case newest_inserted_seq_num s of None \<Rightarrow> seq | Some m \<Rightarrow> m)"
  shows "missing_packets (UpdateMissingPackets s seq)
      = snd (insert_missing_loop seq ((if AheadOf (seq - 1000) n then seq - 1000 else n) + 1)
               (lower_bound (missing_packets s) (seq - 1000)))"
  using assms by (simp add: UpdateMissingPackets_def Let_def)

text \<open>
  The invariant of the missing set is kept by an update that is not exactly half the
  circle ahead of the newest marker.
\<close>

lemma missing_inv_UpdateMissingPackets:
  assumes inv: "missing_inv s"
    and n: "n = (case newest_inserted_seq_num s of None \<Rightarrow> seq | Some m \<Rightarrow> m)"
    and half: "unat (seq - n) \<noteq> 32768"
  shows "missing_inv (UpdateMissingPackets s seq)"
proof (cases "AheadOf seq n")
  case True
  let ?old = "seq - 1000"
  let ?kept = "lower_bound (missing_packets s) ?old"
  let ?n1 = "if AheadOf ?old n then ?old else n"
  note u = UpdateMissingPackets_ahead [OF True n]
  have srt: "sorted_wrt seq_less (missing_packets s)"
    using inv by (simp add: missing_inv_def)
  have win: "1 \<le> unat (n - e) \<and> unat (n - e) \<le> 1000" if "e \<in> set (missing_packets s)" for e
    using inv n that by (auto simp: missing_inv_def split: option.splits)
  have kept: "1 \<le> unat (seq - e) \<and> unat (seq - e) \<le> 1000" if e: "e \<in> set ?kept" for e
  proof -
    from e obtain e0 where e0: "e0 \<in> set (missing_packets s)" "\<not> seq_less e0 ?old"
      "e = e0 \<or> seq_less e0 e"
      using dropWhile_sorted_first [OF srt, of e "\<lambda>e. seq_less e ?old"]
      by (auto simp: lower_bound_def)
    have m: "e \<in> set (missing_packets s)"
      using e by (auto simp: lower_bound_def dest: set_dropWhileD)
    have "unat (seq - e) \<le> 1000"
      using win [OF e0(1)] win [OF m] True e0(2,3) half
      by (intro kept_bound [of n e0 e seq]) (simp_all add: seq_less_def)
    moreover have "unat (seq - e) = unat (seq - n) + unat (n - e)"
      using win [OF m] True by (intro kept_dist) simp_all
    ultimately show ?thesis using win [OF m] by simp
  qed
  have K: "unat (seq - (?n1 + 1)) \<le> 999"
  proof (cases "AheadOf ?old n")
    case True
    have "seq - (seq - 1000 + 1) = 999" by simp
    then have "unat (seq - (seq - 1000 + 1)) = 999" by simp
    with True show ?thesis by simp
  next
    case False
    with jump_bound [OF True False] unat_ahead_succ [OF True] show ?thesis by simp
  qed
  have "sorted_wrt seq_less (snd (insert_missing_loop seq (?n1 + 1) ?kept))"
  proof (rule insert_missing_loop_sorted)
    show "unat (seq - (?n1 + 1)) \<le> 1000" using K by simp
    show "sorted_wrt seq_less ?kept"
      unfolding lower_bound_def using srt by (rule sorted_dropWhile)
    show "\<forall>e \<in> set ?kept. unat (seq - e) \<le> 1000" using kept by simp
  qed
  then have s1: "sorted_wrt seq_less (missing_packets (UpdateMissingPackets s seq))"
    by (simp only: UpdateMissingPackets_ahead_loop [OF True n])
  have s2: "1 \<le> unat (seq - e) \<and> unat (seq - e) \<le> 1000"
    if "e \<in> set (missing_packets (UpdateMissingPackets s seq))" for e
  proof (cases "e \<in> set ?kept")
    case True
    then show ?thesis by (rule kept)
  next
    case False
    with that have "1 \<le> unat (seq - e) \<and>
        unat (seq - e) \<le> (if AheadOf ?old n then 999 else unat (seq - n) - 1)"
      unfolding u(2) by simp
    with jump_bound [OF \<open>AheadOf seq n\<close>] show ?thesis
      by (auto split: if_splits)
  qed
  from s1 s2 u(1) show ?thesis
    by (simp add: missing_inv_def)
next
  case False
  note u = UpdateMissingPackets_behind [OF False n]
  have srt: "sorted_wrt seq_less (missing_packets s)"
    using inv by (simp add: missing_inv_def)
  have "1 \<le> unat (n - e) \<and> unat (n - e) \<le> 1000"
    if "e \<in> set (set_erase seq (missing_packets s))" for e
  proof -
    from that have "e \<in> set (missing_packets s)"
      using set_set_erase by blast
    with inv n show ?thesis
      by (auto simp: missing_inv_def split: option.splits)
  qed
  with sorted_set_erase [OF srt, of seq] u show ?thesis
    by (simp add: missing_inv_def)
qed


lemma missing_inv_new: "missing_inv (new_PacketBuffer a b c)"
  by (simp add: missing_inv_def new_PacketBuffer_def)

lemma missing_inv_Clear: "missing_inv (Clear s)"
  by (simp add: missing_inv_def Clear_def)

lemma sorted_trim_missing:
  assumes "sorted_wrt R ms"
  shows "sorted_wrt R (trim_missing ms seq)"
proof -
  let ?P = "\<lambda>e. \<not> seq_less seq e"
  have "sorted_wrt R (takeWhile ?P ms @ dropWhile ?P ms)"
    using assms by simp
  then have a: "sorted_wrt R (dropWhile ?P ms)"
    and b: "\<forall>x \<in> set (takeWhile ?P ms). \<forall>y \<in> set (dropWhile ?P ms). R x y"
    unfolding sorted_wrt_append by simp_all
  show ?thesis
  proof (cases "takeWhile ?P ms = []")
    case True
    with assms show ?thesis by (simp add: trim_missing_def)
  next
    case False
    then have "last (takeWhile ?P ms) \<in> set (takeWhile ?P ms)" by simp
    with a b False show ?thesis
      by (simp add: trim_missing_def upper_bound_def)
  qed
qed

lemma set_trim_missing: "set (trim_missing ms seq) \<subseteq> set ms"
proof (cases "takeWhile (\<lambda>e. \<not> seq_less seq e) ms = []")
  case True
  then show ?thesis by (simp add: trim_missing_def)
next
  case False
  then have "last (takeWhile (\<lambda>e. \<not> seq_less seq e) ms)
      \<in> set (takeWhile (\<lambda>e. \<not> seq_less seq e) ms)"
    by simp
  then have "last (takeWhile (\<lambda>e. \<not> seq_less seq e) ms) \<in> set ms"
    by (rule set_takeWhileD [THEN conjunct1])
  with False show ?thesis
    by (auto simp: trim_missing_def upper_bound_def Let_def dest: set_dropWhileD)
qed

lemma missing_inv_ClearTo:
  assumes "missing_inv s"
  shows "missing_inv (ClearTo s seq)"
proof -
  have "missing_inv (t\<lparr>first_seq_num := a, is_cleared_to_first_seq_num := b,
      missing_packets := trim_missing (missing_packets t) c\<rparr>)"
    if "missing_packets t = missing_packets s"
      and "newest_inserted_seq_num t = newest_inserted_seq_num s" for t a b c
    using assms that set_trim_missing [of "missing_packets s" c]
      sorted_trim_missing [of seq_less "missing_packets s" c]
    by (auto simp: missing_inv_def)
  then show ?thesis
    using assms by (simp add: ClearTo_def Let_def)
qed

text \<open>
  A buffer whose newest inserted sequence number is 500, with 65036 missing, which is
  1000 behind.
\<close>

definition missing_65036 :: PacketBuffer where
  "missing_65036 =
     (new_PacketBuffer 2 4 False)
       \<lparr>newest_inserted_seq_num := Some 500, missing_packets := [65036]\<rparr>"

text \<open>
  C7 as stated fails after a jump of more than 1000: with the newest marker at 0, the
  update for 2000 moves the marker to 2000, but the skipped number 1, strictly between 0
  and 2000, is not added to the missing set. And the age bound fails for an update that
  is exactly half the circle ahead: with the marker at 500 and 65036 missing, the update
  for 33268 keeps 65036, which is then 33768 behind the marker.
\<close>

theorem UpdateMissingPackets_counterexample:
  "AheadOf 2000 0
   \<and> newest_inserted_seq_num newest_at_0 = Some 0
   \<and> 0 < unat (1 - 0 :: 16 word) \<and> unat (1 - 0 :: 16 word) < unat (2000 - 0 :: 16 word)
   \<and> newest_inserted_seq_num (UpdateMissingPackets newest_at_0 2000) = Some 2000
   \<and> 1 \<notin> set (missing_packets (UpdateMissingPackets newest_at_0 2000))
   \<and> AheadOf 33268 500
   \<and> newest_inserted_seq_num missing_65036 = Some 500
   \<and> missing_packets missing_65036 = [65036]
   \<and> newest_inserted_seq_num (UpdateMissingPackets missing_65036 33268) = Some 33268
   \<and> 65036 \<in> set (missing_packets (UpdateMissingPackets missing_65036 33268))
   \<and> unat (33268 - 65036 :: 16 word) = 33768"
proof -
  have a: "AheadOf 2000 0" and j: "AheadOf (2000 - 1000) 0"
    by (simp_all add: AheadOf_def AheadOrAt_def ForwardDiff_def)
  have n: "0 = (case newest_inserted_seq_num newest_at_0 of None \<Rightarrow> 2000 | Some m \<Rightarrow> m)"
    and m: "missing_packets newest_at_0 = []"
    by (simp_all add: newest_at_0_def new_PacketBuffer_def)
  have "1 \<notin> set (missing_packets (UpdateMissingPackets newest_at_0 2000))"
    unfolding UpdateMissingPackets_ahead(2) [OF a n] using j
    by (simp add: m lower_bound_def)
  with a UpdateMissingPackets_ahead(1) [OF a n]
  have first: "AheadOf 2000 0
   \<and> newest_inserted_seq_num newest_at_0 = Some 0
   \<and> 0 < unat (1 - 0 :: 16 word) \<and> unat (1 - 0 :: 16 word) < unat (2000 - 0 :: 16 word)
   \<and> newest_inserted_seq_num (UpdateMissingPackets newest_at_0 2000) = Some 2000
   \<and> 1 \<notin> set (missing_packets (UpdateMissingPackets newest_at_0 2000))"
    by (simp add: newest_at_0_def)
  have b: "AheadOf 33268 500" and k: "\<not> seq_less 65036 (33268 - 1000)"
    by (simp_all add: seq_less_def AheadOf_def AheadOrAt_def ForwardDiff_def)
  have n5: "500 = (case newest_inserted_seq_num missing_65036 of None \<Rightarrow> 33268 | Some m \<Rightarrow> m)"
    and m5: "missing_packets missing_65036 = [65036]"
    by (simp_all add: missing_65036_def new_PacketBuffer_def)
  have "65036 \<in> set (missing_packets (UpdateMissingPackets missing_65036 33268))"
    unfolding UpdateMissingPackets_ahead(2) [OF b n5] using k
    by (simp add: m5 lower_bound_def)
  moreover have "unat (33268 - 65036 :: 16 word) = 33768"
    by simp
  ultimately have second: "AheadOf 33268 500
   \<and> newest_inserted_seq_num missing_65036 = Some 500
   \<and> missing_packets missing_65036 = [65036]
   \<and> newest_inserted_seq_num (UpdateMissingPackets missing_65036 33268) = Some 33268
   \<and> 65036 \<in> set (missing_packets (UpdateMissingPackets missing_65036 33268))
   \<and> unat (33268 - 65036 :: 16 word) = 33768"
    using b UpdateMissingPackets_ahead(1) [OF b n5] m5
    by (simp add: missing_65036_def)
  from first second show ?thesis
    by (simp only: conj_assoc simp_thms)
qed

text \<open>
  C7, amended. With \<open>n\<close> the newest inserted sequence number before the update (the new
  number itself when there is none yet): if the new number is ahead of \<open>n\<close>, the marker
  advances to it and every skipped number strictly between them that is fewer than 1000
  behind the new number is in the missing set afterwards; if it is behind or equal, the
  marker stays at \<open>n\<close> and the number is not in the missing set afterwards, the set
  being in the order of its comparator; and when the missing set is in order with every
  entry between 1 and 1000 behind the marker, it is so again after the update, unless the
  new number is exactly half the circle (32768) ahead of \<open>n\<close>.
\<close>

theorem UpdateMissingPackets_amended:
  assumes "n = (case newest_inserted_seq_num s of None \<Rightarrow> seq | Some m \<Rightarrow> m)"
    and "s' = UpdateMissingPackets s seq"
  shows "(AheadOf seq n \<longrightarrow>
            newest_inserted_seq_num s' = Some seq \<and>
            (\<forall>x. 0 < unat (x - n) \<and> unat (x - n) < unat (seq - n) \<and> unat (seq - x) < 1000
                 \<longrightarrow> x \<in> set (missing_packets s')))
       \<and> (\<not> AheadOf seq n \<longrightarrow>
            newest_inserted_seq_num s' = Some n \<and>
            (sorted_wrt seq_less (missing_packets s) \<longrightarrow> seq \<notin> set (missing_packets s')))
       \<and> (missing_inv s \<and> unat (seq - n) \<noteq> 32768 \<longrightarrow> missing_inv s')"
proof -
  have ahead: "newest_inserted_seq_num s' = Some seq \<and>
      (\<forall>x. 0 < unat (x - n) \<and> unat (x - n) < unat (seq - n) \<and> unat (seq - x) < 1000
           \<longrightarrow> x \<in> set (missing_packets s'))"
    if a: "AheadOf seq n"
  proof -
    note u = UpdateMissingPackets_ahead [OF a assms(1), folded assms(2)]
    have "x \<in> set (missing_packets s')"
      if "0 < unat (x - n)" "unat (x - n) < unat (seq - n)" "unat (seq - x) < 1000" for x
    proof -
      have "unat (seq - x) = unat (seq - n) - unat (x - n)"
        using that by (intro unat_between) simp
      with that show ?thesis
        unfolding u(2) by (auto split: if_splits)
    qed
    with u(1) show ?thesis by simp
  qed
  have behind: "newest_inserted_seq_num s' = Some n \<and>
      (sorted_wrt seq_less (missing_packets s) \<longrightarrow> seq \<notin> set (missing_packets s'))"
    if b: "\<not> AheadOf seq n"
  proof -
    note u = UpdateMissingPackets_behind [OF b assms(1), folded assms(2)]
    show ?thesis
      unfolding u by (simp add: set_erase_removes)
  qed
  have kept: "missing_inv s'" if "missing_inv s" and "unat (seq - n) \<noteq> 32768"
    unfolding assms(2) using that(1) assms(1) that(2)
    by (rule missing_inv_UpdateMissingPackets)
  from ahead behind kept show ?thesis
    by blast
qed

text \<open>A buffer whose newest inserted sequence number is 10, with 8 missing.\<close>

definition missing_8 :: PacketBuffer where
  "missing_8 =
     (new_PacketBuffer 2 4 False)\<lparr>newest_inserted_seq_num := Some 10, missing_packets := [8]\<rparr>"

theorem UpdateMissingPackets_amended_witness:
  "missing_inv missing_8 \<and> AheadOf 13 10 \<and> unat (13 - 10 :: 16 word) \<noteq> 32768
   \<and> newest_inserted_seq_num (UpdateMissingPackets missing_8 13) = Some 13
   \<and> 11 \<in> set (missing_packets (UpdateMissingPackets missing_8 13))
   \<and> 12 \<in> set (missing_packets (UpdateMissingPackets missing_8 13))
   \<and> missing_inv (UpdateMissingPackets missing_8 13)
   \<and> \<not> AheadOf 8 10 \<and> sorted_wrt seq_less (missing_packets missing_8)
   \<and> newest_inserted_seq_num (UpdateMissingPackets missing_8 8) = Some 10
   \<and> 8 \<notin> set (missing_packets (UpdateMissingPackets missing_8 8))
   \<and> missing_inv (UpdateMissingPackets missing_8 8)"
proof -
  have i: "missing_inv missing_8"
    by (simp add: missing_inv_def missing_8_def new_PacketBuffer_def)
  then have srt: "sorted_wrt seq_less (missing_packets missing_8)"
    by (simp add: missing_inv_def)
  have n: "10 = (case newest_inserted_seq_num missing_8 of None \<Rightarrow> x | Some m \<Rightarrow> m)" for x
    by (simp add: missing_8_def)
  have a: "AheadOf 13 10" and b: "\<not> AheadOf 8 10"
    by (simp_all add: AheadOf_def AheadOrAt_def ForwardDiff_def)
  have h: "unat (13 - 10 :: 16 word) \<noteq> 32768" "unat (8 - 10 :: 16 word) \<noteq> 32768"
    by simp_all
  have d: "0 < unat (11 - 10 :: 16 word) \<and> unat (11 - 10 :: 16 word) < unat (13 - 10 :: 16 word)
      \<and> unat (13 - 11 :: 16 word) < 1000"
    "0 < unat (12 - 10 :: 16 word) \<and> unat (12 - 10 :: 16 word) < unat (13 - 10 :: 16 word)
      \<and> unat (13 - 12 :: 16 word) < 1000"
    by simp_all
  from UpdateMissingPackets_amended [OF n refl, of 13] a d i h(1)
  have "newest_inserted_seq_num (UpdateMissingPackets missing_8 13) = Some 13
    \<and> 11 \<in> set (missing_packets (UpdateMissingPackets missing_8 13))
    \<and> 12 \<in> set (missing_packets (UpdateMissingPackets missing_8 13))
    \<and> missing_inv (UpdateMissingPackets missing_8 13)"
    by blast
  moreover from UpdateMissingPackets_amended [OF n refl, of 8] b i srt h(2)
  have "newest_inserted_seq_num (UpdateMissingPackets missing_8 8) = Some 10
    \<and> 8 \<notin> set (missing_packets (UpdateMissingPackets missing_8 8))
    \<and> missing_inv (UpdateMissingPackets missing_8 8)"
    by blast
  ultimately show ?thesis
    using i a b h(1) srt by (simp only: simp_thms)
qed

section \<open>The invariant of the two vectors\<close>

text \<open>
  \<open>keeps_seqs s s'\<close>: from \<open>s\<close> to \<open>s'\<close> the capacity, the lengths of the vectors and
  the sequence numbers stored in their slots stay, and no slot becomes used.
\<close>

definition keeps_seqs :: "PacketBuffer \<Rightarrow> PacketBuffer \<Rightarrow> bool" where
  "keeps_seqs s s' =
     (cur_size s' = cur_size s \<and> max_size s' = max_size s \<and>
      length (sequence_buffer s') = length (sequence_buffer s) \<and>
      length (data_buffer s') = length (data_buffer s) \<and>
      (\<forall>i. seq_num (sequence_buffer s' ! i) = seq_num (sequence_buffer s ! i) \<and>
           seqNum (data_buffer s' ! i) = seqNum (data_buffer s ! i) \<and>
           (used (sequence_buffer s' ! i) \<longrightarrow> used (sequence_buffer s ! i))))"

lemma keeps_seqs_refl [simp]: "keeps_seqs s s"
  by (simp add: keeps_seqs_def)

lemma keeps_seqs_trans: "keeps_seqs s t \<Longrightarrow> keeps_seqs t u \<Longrightarrow> keeps_seqs s u"
  by (simp add: keeps_seqs_def)

lemma nth_update_field:
  assumes "\<And>c. f (g c) = f c"
  shows "f (xs[j := g (xs ! j)] ! i) = f (xs ! i)"
proof (cases "j < length xs")
  case True
  then show ?thesis using assms by (cases "i = j") simp_all
next
  case False
  then show ?thesis by (simp add: list_update_beyond)
qed

lemma keeps_seqs_buffers:
  assumes "cur_size s' = cur_size s" and "max_size s' = max_size s"
    and "sequence_buffer s' = sequence_buffer s" and "data_buffer s' = data_buffer s"
  shows "keeps_seqs s s'"
  using assms by (simp add: keeps_seqs_def)

lemma nth_update_used:
  "used ((xs[j := (xs ! j)\<lparr>used := False\<rparr>]) ! i) \<Longrightarrow> used (xs ! i)"
proof (cases "j < length xs")
  case True
  assume "used ((xs[j := (xs ! j)\<lparr>used := False\<rparr>]) ! i)"
  with True show ?thesis by (cases "i = j") simp_all
next
  case False
  assume "used ((xs[j := (xs ! j)\<lparr>used := False\<rparr>]) ! i)"
  with False show ?thesis by (simp add: list_update_beyond)
qed

lemma keeps_seqs_free_slot: "keeps_seqs s (free_slot s i)"
  by (auto simp: keeps_seqs_def free_slot_def nth_update_field dest: nth_update_used)

lemma keeps_seqs_set_frame_created: "keeps_seqs s (set_frame_created s i b)"
  by (simp add: keeps_seqs_def set_frame_created_def nth_update_field)

lemma keeps_seqs_set_continuous: "keeps_seqs s (set_continuous s i)"
  by (simp add: keeps_seqs_def set_continuous_def nth_update_field)

lemma keeps_seqs_set_frame_type: "keeps_seqs s (set_frame_type s i t)"
  by (simp add: keeps_seqs_def set_frame_type_def nth_update_field)

lemma keeps_seqs_ClearInterval_loop: "keeps_seqs s (ClearInterval_loop n seq s)"
proof (induction n arbitrary: seq s)
  case 0
  show ?case by simp
next
  case (Suc n)
  show ?case
    using keeps_seqs_trans [OF keeps_seqs_free_slot Suc] by simp
qed

lemma keeps_seqs_unmark_loop: "keeps_seqs s (unmark_loop s index i)"
proof (induction s index i rule: unmark_loop.induct)
  case (1 s index i)
  show ?case
  proof (cases "cur_size s = 0 \<or> i = stop_index s index")
    case True
    then show ?thesis by (subst unmark_loop.simps) simp
  next
    case False
    from keeps_seqs_trans [OF keeps_seqs_set_frame_created "1.IH" [OF False]] False
    show ?thesis by (subst unmark_loop.simps) simp
  qed
qed

lemma keeps_seqs_walk_step:
  "walk_step is_h264 ts s sc = WalkAbort s1 \<Longrightarrow> keeps_seqs s s1"
  "walk_step is_h264 ts s sc = WalkBreak s1 sc1 \<Longrightarrow> keeps_seqs s s1"
  "walk_step is_h264 ts s sc = WalkCont s1 sc1 \<Longrightarrow> keeps_seqs s s1"
  by (auto simp: walk_step_def Let_def keeps_seqs_set_frame_created
        split: if_splits option.splits)

lemma keeps_seqs_find_frame_start:
  "find_frame_start is_h264 ts s sc = ScanAbort s' \<Longrightarrow> keeps_seqs s s'"
  "find_frame_start is_h264 ts s sc = ScanDone s' sc' \<Longrightarrow> keeps_seqs s s'"
proof (induction is_h264 ts s sc rule: find_frame_start.induct)
  case (1 is_h264 ts s sc)
  {
    case 1
    then show ?case
      by (subst (asm) find_frame_start.simps)
         (auto split: WalkStep.splits
            intro: keeps_seqs_walk_step keeps_seqs_trans [OF keeps_seqs_walk_step(3) "1.IH"(1)])
  next
    case 2
    then show ?case
      by (subst (asm) find_frame_start.simps)
         (auto split: WalkStep.splits
            intro: keeps_seqs_walk_step keeps_seqs_trans [OF keeps_seqs_walk_step(3) "1.IH"(2)])
  }
qed


lemma keeps_seqs_missing: "keeps_seqs s (s\<lparr>missing_packets := ms\<rparr>)"
  by (simp add: keeps_seqs_def)

lemma keeps_seqs_emit_frame:
  "emit_frame seq found s sc = StepNext found' s' \<Longrightarrow> keeps_seqs s s'"
  by (auto simp: emit_frame_def ClearInterval_def Let_def
        split: option.splits sum.splits
        intro!: keeps_seqs_trans [OF keeps_seqs_missing keeps_seqs_ClearInterval_loop])

lemma emit_frame_no_return: "emit_frame seq found s sc \<noteq> StepReturn s'"
  by (simp add: emit_frame_def Let_def split: option.splits sum.splits)

lemma keeps_seqs_finish_frame:
  "finish_frame is_h264 index seq found s sc = StepNext found' s' \<Longrightarrow> keeps_seqs s s'"
  "finish_frame is_h264 index seq found s sc = StepReturn s' \<Longrightarrow> keeps_seqs s s'"
  by (auto simp: finish_frame_def Let_def emit_frame_no_return
        split: if_splits
        dest!: keeps_seqs_emit_frame
        intro: keeps_seqs_trans [OF keeps_seqs_set_frame_type]
          keeps_seqs_trans [OF keeps_seqs_set_frame_type keeps_seqs_unmark_loop])

lemma keeps_seqs_FindFrames_body:
  "FindFrames_body seq found s = StepNext found' s' \<Longrightarrow> keeps_seqs s s'"
  "FindFrames_body seq found s = StepReturn s' \<Longrightarrow> keeps_seqs s s'"
  by (auto simp: FindFrames_body_def Let_def
        split: if_splits ScanResult.splits
        dest!: keeps_seqs_find_frame_start keeps_seqs_finish_frame
        intro: keeps_seqs_set_continuous keeps_seqs_trans [OF keeps_seqs_set_continuous]
          keeps_seqs_trans [OF keeps_seqs_set_continuous keeps_seqs_trans])

lemma keeps_seqs_FindFrames_loop:
  "FindFrames_loop i seq found s = Inr r \<Longrightarrow> keeps_seqs s (snd (snd r))"
proof (induction i seq found s rule: FindFrames_loop.induct)
  case (1 i seq found s)
  show ?case
  proof (cases "i < cur_size s \<and> PotentialNewFrame s seq")
    case False
    with "1.prems" show ?thesis
      by (subst (asm) FindFrames_loop.simps) auto
  next
    case True
    show ?thesis
    proof (cases "FindFrames_body seq found s")
      case (StepReturn s')
      with "1.prems" True show ?thesis
        by (subst (asm) FindFrames_loop.simps) (auto intro: keeps_seqs_FindFrames_body)
    next
      case (StepCrash e)
      with "1.prems" True show ?thesis
        by (subst (asm) FindFrames_loop.simps) auto
    next
      case (StepNext found' s')
      with "1.prems" True have "FindFrames_loop (i + 1) (seq + 1) found' s' = Inr r"
        by (subst (asm) FindFrames_loop.simps) auto
      from keeps_seqs_trans [OF keeps_seqs_FindFrames_body(1) [OF StepNext]
          "1.IH" [OF True StepNext this]]
      show ?thesis .
    qed
  qed
qed

lemma keeps_seqs_FindFrames:
  "FindFrames s seq = Inr r \<Longrightarrow> keeps_seqs s (snd r)"
  by (auto simp: FindFrames_def split: sum.splits dest: keeps_seqs_FindFrames_loop)


lemma keeps_seqs_fold_free_slot: "keeps_seqs s (fold (\<lambda>i t. free_slot t i) is s)"
proof (induction "is" arbitrary: s)
  case Nil
  show ?case by simp
next
  case (Cons i "is")
  show ?case
    using keeps_seqs_trans [OF keeps_seqs_free_slot Cons] by simp
qed

lemma keeps_seqs_Clear: "keeps_seqs s (Clear s)"
  using keeps_seqs_fold_free_slot [of s "[0..<cur_size s]"]
  by (simp add: Clear_def keeps_seqs_def)

lemma keeps_seqs_ClearTo_loop: "keeps_seqs s (ClearTo_loop n seq s)"
proof (induction n arbitrary: s)
  case 0
  show ?case by simp
next
  case (Suc n)
  let ?i = "unat (first_seq_num s) mod cur_size s"
  let ?s1 = "if AheadOf seq (seq_num (sequence_buffer s ! ?i)) then free_slot s ?i else s"
  have "keeps_seqs s (?s1\<lparr>first_seq_num := first_seq_num ?s1 + 1\<rparr>)"
    using keeps_seqs_free_slot [of s ?i] by (simp add: keeps_seqs_def)
  from keeps_seqs_trans [OF this Suc] show ?case
    by (simp add: Let_def)
qed

lemma keeps_seqs_ClearTo: "keeps_seqs s (ClearTo s seq)"
  using keeps_seqs_ClearTo_loop [of s "min (unat (ForwardDiff (first_seq_num s) (seq + 1))) (cur_size s)" "seq + 1"]
  by (simp add: ClearTo_def Let_def keeps_seqs_def)

lemma keeps_seqs_UpdateMissingPackets: "keeps_seqs s (UpdateMissingPackets s seq)"
  by (simp add: UpdateMissingPackets_def Let_def keeps_seqs_def)

lemma keeps_seqs_note_receive_times: "keeps_seqs s (note_receive_times s packet now_ms)"
  by (simp add: note_receive_times_def keeps_seqs_def)

lemma keeps_seqs_before_insert:
  "keeps_seqs s (note_first_seq_num (OnTimestampReceived s ts) seq)"
  "keeps_seqs s (OnTimestampReceived s ts)"
  by (simp_all add: keeps_seqs_def)

text \<open>
  C9's invariant, for a buffer that was made with the capacity \<open>start\<close>: the vectors have
  \<open>size_\<close> slots, a used slot holds the same sequence number in both, and the capacity
  is a power of two between \<open>start\<close> and the maximal capacity (a power of two as well).
\<close>

definition is_pow2 :: "nat \<Rightarrow> bool" where
  "is_pow2 n = (\<exists>k \<in> {..n}. n = 2 ^ k)"

definition buffer_inv :: "nat \<Rightarrow> PacketBuffer \<Rightarrow> bool" where
  "buffer_inv start s =
     (sized s \<and>
      (\<forall>i \<in> set [0..<cur_size s].
         used (sequence_buffer s ! i) \<longrightarrow>
           seq_num (sequence_buffer s ! i) = seqNum (data_buffer s ! i)) \<and>
      is_pow2 (cur_size s) \<and> is_pow2 (max_size s) \<and>
      start \<le> cur_size s \<and> cur_size s \<le> max_size s)"

lemma is_pow2_iff: "is_pow2 n \<longleftrightarrow> (\<exists>k. n = 2 ^ k)"
proof
  assume "is_pow2 n"
  then show "\<exists>k. n = 2 ^ k" by (auto simp: is_pow2_def)
next
  assume "\<exists>k. n = 2 ^ k"
  then obtain k where k: "n = 2 ^ k" ..
  have "k < 2 ^ k" by (rule less_exp)
  with k show "is_pow2 n" by (auto simp: is_pow2_def intro!: bexI [of _ k])
qed

lemma pow2_double:
  assumes "is_pow2 a" and "is_pow2 b" and "a < b"
  shows "2 * a \<le> b" and "is_pow2 (2 * a)"
proof -
  from assms obtain j k where j: "a = 2 ^ j" and k: "b = 2 ^ k"
    by (auto simp: is_pow2_iff)
  with assms(3) have "j < k" by simp
  then have "Suc j \<le> k" by simp
  then have "(2::nat) ^ Suc j \<le> 2 ^ k" by (rule power_increasing) simp
  with j k show "2 * a \<le> b" by simp
  from j have "2 * a = 2 ^ Suc j" by simp
  then show "is_pow2 (2 * a)" unfolding is_pow2_iff by blast
qed

lemma buffer_inv_keeps:
  assumes "buffer_inv start s" and "keeps_seqs s s'"
  shows "buffer_inv start s'"
  using assms by (auto simp: buffer_inv_def keeps_seqs_def sized_def)

lemma buffer_inv_heap: "buffer_inv start (s\<lparr>heap := h\<rparr>) = buffer_inv start s"
  by (simp add: buffer_inv_def sized_def)

lemma buffer_inv_store_packet:
  assumes "buffer_inv start s" and "index < cur_size s"
  shows "buffer_inv start (store_packet s index packet)"
  using assms by (auto simp: buffer_inv_def sized_def store_packet_def nth_list_update)


text \<open>
  Where the slots of the new vectors come from: slot \<open>p\<close> is as it was initially, or it is
  the pair of records of a used old slot whose sequence number has the index \<open>p\<close>.
\<close>

lemma fold_relocate_origin:
  assumes "length (fst nb) = n" and "length (snd nb) = n" and "p < n"
  shows "(fst (fold (relocate s n) is nb) ! p = fst nb ! p \<and>
          snd (fold (relocate s n) is nb) ! p = snd nb ! p) \<or>
         (\<exists>i \<in> set is. used (sequence_buffer s ! i) \<and>
            unat (seq_num (sequence_buffer s ! i)) mod n = p \<and>
            fst (fold (relocate s n) is nb) ! p = data_buffer s ! i \<and>
            snd (fold (relocate s n) is nb) ! p = sequence_buffer s ! i)"
  using assms
proof (induction "is" arbitrary: nb)
  case Nil
  show ?case by simp
next
  case (Cons i "is")
  let ?nb = "relocate s n i nb"
  have len: "length (fst ?nb) = n" "length (snd ?nb) = n"
    using Cons.prems by (simp_all add: relocate_def Let_def)
  have first: "(fst ?nb ! p = fst nb ! p \<and> snd ?nb ! p = snd nb ! p) \<or>
      (used (sequence_buffer s ! i) \<and> unat (seq_num (sequence_buffer s ! i)) mod n = p \<and>
       fst ?nb ! p = data_buffer s ! i \<and> snd ?nb ! p = sequence_buffer s ! i)"
    using Cons.prems by (auto simp: relocate_def Let_def nth_list_update)
  from Cons.IH [OF len Cons.prems(3)] first show ?case
    by auto
qed

lemma buffer_inv_ExpandBufferSize:
  assumes inv: "buffer_inv start s" and e: "ExpandBufferSize s = Inr (True, s')"
  shows "buffer_inv start s'"
proof -
  let ?n = "min (max_size s) (2 * cur_size s)"
  let ?init = "(replicate ?n default_VCMPacket, replicate ?n default_ContinuityInfo)"
  let ?nb = "fold (relocate s ?n) [0..<cur_size s] ?init"
  have s': "s' = s\<lparr>cur_size := ?n, sequence_buffer := snd ?nb, data_buffer := fst ?nb\<rparr>"
    and ne: "cur_size s \<noteq> max_size s"
    using e by (auto simp: ExpandBufferSize_def Let_def split: if_splits)
  have lt: "cur_size s < max_size s"
    using inv ne by (simp add: buffer_inv_def)
  have n: "?n = 2 * cur_size s" and p2: "is_pow2 (2 * cur_size s)"
    using pow2_double [of "cur_size s" "max_size s"] inv lt by (simp_all add: buffer_inv_def)
  have len: "length (fst ?nb) = ?n" "length (snd ?nb) = ?n"
    using fold_relocate_length [of s ?n "[0..<cur_size s]" ?init] by simp_all
  have eq: "seq_num (snd ?nb ! p) = seqNum (fst ?nb ! p)" if "p < ?n" "used (snd ?nb ! p)" for p
  proof -
    from fold_relocate_origin [of ?init ?n p s "[0..<cur_size s]"] that(1)
    consider "fst ?nb ! p = default_VCMPacket \<and> snd ?nb ! p = default_ContinuityInfo"
      | i where "i < cur_size s" "used (sequence_buffer s ! i)"
          "fst ?nb ! p = data_buffer s ! i" "snd ?nb ! p = sequence_buffer s ! i"
      by auto
    then show ?thesis
    proof cases
      case 1
      with that(2) show ?thesis by (simp add: default_ContinuityInfo_def)
    next
      case 2
      with inv show ?thesis by (simp add: buffer_inv_def)
    qed
  qed
  show ?thesis
    unfolding s' using inv len n p2 eq lt
    by (auto simp: buffer_inv_def sized_def)
qed

lemma buffer_inv_expand_loop:
  assumes "buffer_inv start s" and "expand_loop s seq = Inr s'"
  shows "buffer_inv start s'"
  using assms
proof (induction s seq rule: expand_loop.induct)
  case (1 s seq)
  show ?case
  proof (cases "ExpandBufferSize s")
    case (Inl e)
    with "1.prems"(2) show ?thesis
      by (subst (asm) expand_loop.simps) simp
  next
    case (Inr r)
    show ?thesis
    proof (cases "fst r")
      case False
      then have r: "ExpandBufferSize s = Inr (False, snd r)"
        using Inr by (cases r) simp
      from "1.prems"(2) Inr False have "s' = snd r"
        by (subst (asm) expand_loop.simps) simp
      with ExpandBufferSize_False [OF r] "1.prems"(1) show ?thesis
        by simp
    next
      case True
      then have r: "ExpandBufferSize s = Inr (True, snd r)"
        using Inr by (cases r) simp
      note i = buffer_inv_ExpandBufferSize [OF "1.prems"(1) r]
      show ?thesis
      proof (cases "cur_size (snd r) \<noteq> 0 \<and>
          used (sequence_buffer (snd r) ! (unat seq mod cur_size (snd r)))")
        case go: True
        with "1.prems"(2) Inr True have "expand_loop (snd r) seq = Inr s'"
          by (subst (asm) expand_loop.simps) simp
        from "1.IH" [OF Inr _ _ _ i this] True go show ?thesis
          by auto
      next
        case stop: False
        with "1.prems"(2) Inr True have "s' = snd r"
          by (subst (asm) expand_loop.simps) (auto split: if_splits)
        with i show ?thesis by simp
      qed
    qed
  qed
qed

lemma buffer_inv_insert_at:
  assumes "buffer_inv start s" and "index < cur_size s"
    and "insert_at s index packet now_ms = Inr r"
  shows "buffer_inv start (fst (snd (snd r)))"
proof -
  let ?s1 = "note_receive_times (UpdateMissingPackets (store_packet s index packet) (seqNum packet))
      packet now_ms"
  from assms(3) obtain q where q: "FindFrames ?s1 (seqNum packet) = Inr q"
    and r: "fst (snd (snd r)) = snd q"
    by (auto simp: insert_at_def split: sum.splits)
  have "buffer_inv start ?s1"
    using buffer_inv_store_packet [OF assms(1,2)]
    by (intro buffer_inv_keeps [OF _ keeps_seqs_note_receive_times]
          buffer_inv_keeps [OF _ keeps_seqs_UpdateMissingPackets])
  with keeps_seqs_FindFrames [OF q] r show ?thesis
    by (auto intro: buffer_inv_keeps)
qed


lemma InsertPacket_cases:
  assumes "InsertPacket s packet now_ms = Inr r"
  obtains
    (dropped) t where "r = drop_packet True t packet"
      and "keeps_seqs s t"
  | (overflow) s2 where
      "expand_loop (note_first_seq_num (OnTimestampReceived s (timestamp packet)) (seqNum packet))
         (seqNum packet) = Inr s2"
      and "r = drop_packet False (Clear s2) packet"
  | (grown) s2 where
      "expand_loop (note_first_seq_num (OnTimestampReceived s (timestamp packet)) (seqNum packet))
         (seqNum packet) = Inr s2"
      and "insert_at s2 (unat (seqNum packet) mod cur_size s2) packet now_ms = Inr r"
  | (plain) "0 < cur_size s"
      and "insert_at (note_first_seq_num (OnTimestampReceived s (timestamp packet)) (seqNum packet))
         (unat (seqNum packet) mod cur_size s) packet now_ms = Inr r"
proof -
  let ?s0 = "OnTimestampReceived s (timestamp packet)"
  let ?s1 = "note_first_seq_num ?s0 (seqNum packet)"
  let ?i = "unat (seqNum packet) mod cur_size s"
  have pos: "0 < cur_size s"
    using assms by (auto simp: InsertPacket_def Let_def split: if_splits)
  show ?thesis
  proof (cases "stale_packet s packet")
    case True
    then have "InsertPacket s packet now_ms = Inr (drop_packet True ?s0 packet)"
      using pos by (auto simp: InsertPacket_def stale_packet_def Let_def)
    with assms show ?thesis
      by (intro dropped [of ?s0]) (simp_all add: keeps_seqs_before_insert)
  next
    case ns: False
    show ?thesis
    proof (cases "used (sequence_buffer s ! ?i)")
      case False
      then have "InsertPacket s packet now_ms = insert_at ?s1 ?i packet now_ms"
        using pos ns by (auto simp: InsertPacket_def stale_packet_def Let_def)
      with assms pos show ?thesis
        by (intro plain) simp_all
    next
      case u: True
      show ?thesis
      proof (cases "seqNum (data_buffer s ! ?i) = seqNum packet")
        case True
        then have "InsertPacket s packet now_ms = Inr (drop_packet True ?s1 packet)"
          using pos ns u by (auto simp: InsertPacket_def stale_packet_def Let_def)
        with assms show ?thesis
          by (intro dropped [of ?s1]) (simp_all add: keeps_seqs_before_insert)
      next
        case d: False
        have unf: "InsertPacket s packet now_ms =
            (case expand_loop ?s1 (seqNum packet) of
               Inl e \<Rightarrow> Inl e
             | Inr s2 \<Rightarrow>
                 if used (sequence_buffer s2 ! (unat (seqNum packet) mod cur_size s2))
                 then Inr (drop_packet False (Clear s2) packet)
                 else insert_at s2 (unat (seqNum packet) mod cur_size s2) packet now_ms)"
          using pos ns u d by (auto simp: InsertPacket_def stale_packet_def Let_def)
        show ?thesis
        proof (cases "expand_loop ?s1 (seqNum packet)")
          case (Inl e)
          with assms unf show ?thesis by simp
        next
          case (Inr s2)
          show ?thesis
          proof (cases "used (sequence_buffer s2 ! (unat (seqNum packet) mod cur_size s2))")
            case True
            with assms unf Inr show ?thesis
              by (intro overflow [of s2]) simp_all
          next
            case False
            with assms unf Inr show ?thesis
              by (intro grown [of s2]) simp_all
          qed
        qed
      qed
    qed
  qed
qed

lemma is_pow2_pos: "is_pow2 n \<Longrightarrow> 0 < n"
  by (auto simp: is_pow2_iff)

text \<open>
  C9. Every public operation preserves the invariant: after \<open>Clear\<close> and \<open>ClearTo\<close>, and
  in every state that \<open>InsertPacket\<close> or \<open>PaddingReceived\<close> returns, a used slot stores the
  same sequence number in the continuity vector and in the payload vector, and the
  capacity is a power of two between the start capacity and the maximal capacity.
\<close>

theorem buffer_inv_preserved:
  assumes "buffer_inv start s"
  shows "buffer_inv start (Clear s) \<and> buffer_inv start (ClearTo s seq)
    \<and> (\<forall>r. InsertPacket s packet now_ms = Inr r \<longrightarrow> buffer_inv start (fst (snd (snd r))))
    \<and> (\<forall>r. PaddingReceived s seq = Inr r \<longrightarrow> buffer_inv start (snd r))"
proof (intro conjI allI impI)
  show "buffer_inv start (Clear s)"
    using assms keeps_seqs_Clear by (rule buffer_inv_keeps)
  show "buffer_inv start (ClearTo s seq)"
    using assms keeps_seqs_ClearTo by (rule buffer_inv_keeps)
next
  fix r
  assume "PaddingReceived s seq = Inr r"
  then have "keeps_seqs (UpdateMissingPackets s seq) (snd r)"
    by (simp add: PaddingReceived_def keeps_seqs_FindFrames)
  with keeps_seqs_UpdateMissingPackets have "keeps_seqs s (snd r)"
    by (rule keeps_seqs_trans)
  with assms show "buffer_inv start (snd r)"
    by (rule buffer_inv_keeps)
next
  fix r
  assume ins: "InsertPacket s packet now_ms = Inr r"
  let ?s1 = "note_first_seq_num (OnTimestampReceived s (timestamp packet)) (seqNum packet)"
  have i1: "buffer_inv start ?s1"
    using assms keeps_seqs_before_insert(1) by (rule buffer_inv_keeps)
  from ins show "buffer_inv start (fst (snd (snd r)))"
  proof (cases rule: InsertPacket_cases)
    case (dropped t)
    with assms show ?thesis
      by (auto simp: drop_packet_def buffer_inv_heap intro: buffer_inv_keeps)
  next
    case (overflow s2)
    from buffer_inv_expand_loop [OF i1 overflow(1)] keeps_seqs_Clear
    have "buffer_inv start (Clear s2)" by (rule buffer_inv_keeps)
    with overflow(2) show ?thesis
      by (simp add: drop_packet_def buffer_inv_heap)
  next
    case (grown s2)
    note i2 = buffer_inv_expand_loop [OF i1 grown(1)]
    then have "0 < cur_size s2"
      by (simp add: buffer_inv_def is_pow2_pos)
    then have "unat (seqNum packet) mod cur_size s2 < cur_size s2"
      by simp
    from buffer_inv_insert_at [OF i2 this grown(2)] show ?thesis .
  next
    case plain
    then have "unat (seqNum packet) mod cur_size s < cur_size ?s1"
      by simp
    from buffer_inv_insert_at [OF i1 this] plain(2) show ?thesis
      by simp
  qed
qed

lemma buffer_inv_new:
  assumes "is_pow2 start" and "is_pow2 max_buffer_size" and "start \<le> max_buffer_size"
  shows "buffer_inv start (new_PacketBuffer start max_buffer_size field_trial)"
  using assms
  by (simp add: buffer_inv_def sized_def new_PacketBuffer_def default_ContinuityInfo_def)

theorem buffer_inv_preserved_witness:
  "buffer_inv 2 two_packets
   \<and> buffer_inv 2 (Clear two_packets) \<and> buffer_inv 2 (ClearTo two_packets 0)
   \<and> InsertPacket two_packets next_packet 0
       = Inr (drop_packet True
               (note_first_seq_num (OnTimestampReceived two_packets 7) 1) next_packet)
   \<and> buffer_inv 2 (note_first_seq_num (OnTimestampReceived two_packets 7) 1)"
proof -
  have p: "is_pow2 2" "is_pow2 4"
    unfolding is_pow2_iff by (rule exI [of _ 1], simp) (rule exI [of _ 2], simp)
  have i: "buffer_inv 2 two_packets"
    unfolding two_packets_def
    by (intro buffer_inv_keeps [OF _ keeps_seqs_set_continuous] buffer_inv_store_packet
          buffer_inv_new p)
       (simp_all add: store_packet_def new_PacketBuffer_def)
  have e: "InsertPacket two_packets next_packet 0
       = Inr (drop_packet True
               (note_first_seq_num (OnTimestampReceived two_packets 7) 1) next_packet)"
    by (simp add: InsertPacket_def Let_def two_packets_def set_continuous_def store_packet_def
          new_PacketBuffer_def next_packet_def test_packet_def default_VCMPacket_def
          drop_packet_def)
  from buffer_inv_preserved [OF i, of 0 next_packet 0] i e show ?thesis
    by (simp add: drop_packet_def buffer_inv_heap)
qed

section \<open>ExpandBufferSize\<close>

text \<open>A slot of the new vectors that no used old slot is moved to stays as it was.\<close>

lemma fold_relocate_untouched:
  assumes "\<forall>i \<in> set is. used (sequence_buffer s ! i) \<longrightarrow>
             unat (seq_num (sequence_buffer s ! i)) mod n \<noteq> p"
  shows "fst (fold (relocate s n) is nb) ! p = fst nb ! p \<and>
         snd (fold (relocate s n) is nb) ! p = snd nb ! p"
  using assms
proof (induction "is" arbitrary: nb)
  case Nil
  show ?case by simp
next
  case (Cons i "is")
  have "fst (relocate s n i nb) ! p = fst nb ! p \<and> snd (relocate s n i nb) ! p = snd nb ! p"
    using Cons.prems by (auto simp: relocate_def Let_def)
  with Cons.IH [of "relocate s n i nb"] Cons.prems show ?case
    by simp
qed

text \<open>
  A used old slot whose new index no other used slot shares arrives there, with both of
  its records.
\<close>

lemma fold_relocate_target:
  assumes "i \<in> set is" and "distinct is" and "used (sequence_buffer s ! i)"
    and "unat (seq_num (sequence_buffer s ! i)) mod n < length (fst nb)"
    and "length (snd nb) = length (fst nb)"
    and "\<forall>j \<in> set is. j \<noteq> i \<longrightarrow> used (sequence_buffer s ! j) \<longrightarrow>
           unat (seq_num (sequence_buffer s ! j)) mod n
             \<noteq> unat (seq_num (sequence_buffer s ! i)) mod n"
  shows "fst (fold (relocate s n) is nb) ! (unat (seq_num (sequence_buffer s ! i)) mod n)
           = data_buffer s ! i \<and>
         snd (fold (relocate s n) is nb) ! (unat (seq_num (sequence_buffer s ! i)) mod n)
           = sequence_buffer s ! i"
proof -
  let ?p = "unat (seq_num (sequence_buffer s ! i)) mod n"
  from assms(1) obtain pre post where sp: "is = pre @ i # post"
    by (auto simp: in_set_conv_decomp)
  with assms(2) have ni: "i \<notin> set pre" "i \<notin> set post"
    by auto
  let ?a = "fold (relocate s n) pre nb"
  let ?b = "relocate s n i ?a"
  have la: "length (fst ?a) = length (fst nb)" "length (snd ?a) = length (fst nb)"
    using fold_relocate_length [of s n pre nb] assms(5) by simp_all
  have b: "fst ?b ! ?p = data_buffer s ! i \<and> snd ?b ! ?p = sequence_buffer s ! i"
    using assms(3,4) la by (simp add: relocate_def Let_def)
  have "\<forall>j \<in> set post. used (sequence_buffer s ! j) \<longrightarrow>
      unat (seq_num (sequence_buffer s ! j)) mod n \<noteq> ?p"
    using assms(6) sp ni by auto
  from fold_relocate_untouched [OF this, of ?b] b show ?thesis
    by (simp add: sp)
qed


text \<open>
  \<open>expanded s s'\<close>: \<open>s'\<close> is \<open>s\<close> with twice the capacity and new vectors, every used
  slot of \<open>s\<close> is at index \<open>seq_num mod\<close> the new capacity with both of its records (flags,
  packet record and payload pointer), every other slot is empty, and no other member
  (the heap of payloads among them) has changed.
\<close>

definition expanded :: "PacketBuffer \<Rightarrow> PacketBuffer \<Rightarrow> bool" where
  "expanded s s' =
     (cur_size s' = 2 * cur_size s \<and> sized s' \<and>
      s' = s\<lparr>cur_size := cur_size s', sequence_buffer := sequence_buffer s',
              data_buffer := data_buffer s'\<rparr> \<and>
      (\<forall>i \<in> set [0..<cur_size s].
         used (sequence_buffer s ! i) \<longrightarrow>
           sequence_buffer s' ! (unat (seq_num (sequence_buffer s ! i)) mod cur_size s')
             = sequence_buffer s ! i \<and>
           data_buffer s' ! (unat (seq_num (sequence_buffer s ! i)) mod cur_size s')
             = data_buffer s ! i) \<and>
      (\<forall>p \<in> set [0..<cur_size s'].
         sequence_buffer s' ! p = default_ContinuityInfo \<and> data_buffer s' ! p = default_VCMPacket
         \<or> (\<exists>i \<in> set [0..<cur_size s].
               used (sequence_buffer s ! i) \<and>
               unat (seq_num (sequence_buffer s ! i)) mod cur_size s' = p \<and>
               sequence_buffer s' ! p = sequence_buffer s ! i \<and>
               data_buffer s' ! p = data_buffer s ! i)))"

lemma mod_double_inj:
  fixes a b n :: nat
  assumes "a mod (2 * n) = b mod (2 * n)"
  shows "a mod n = b mod n"
proof -
  have "a mod (2 * n) mod n = b mod (2 * n) mod n"
    using assms by simp
  then show ?thesis
    by (simp add: mod_mod_cancel)
qed

lemma ExpandBufferSize_expanded:
  assumes sz: "sized s" and ri: "ring_inv s" and le: "2 * cur_size s \<le> max_size s"
    and pos: "0 < cur_size s"
  shows "\<exists>s'. ExpandBufferSize s = Inr (True, s') \<and> expanded s s'"
proof -
  let ?N = "cur_size s"
  let ?n = "2 * ?N"
  let ?init = "(replicate ?n default_VCMPacket, replicate ?n default_ContinuityInfo)"
  let ?nb = "fold (relocate s ?n) [0..<?N] ?init"
  let ?s' = "s\<lparr>cur_size := ?n, sequence_buffer := snd ?nb, data_buffer := fst ?nb\<rparr>"
  have m: "min (max_size s) ?n = ?n" using le by simp
  have e: "ExpandBufferSize s = Inr (True, ?s')"
    using le pos by (simp add: ExpandBufferSize_def Let_def m)
  have len: "length (fst ?nb) = ?n" "length (snd ?nb) = ?n"
    using fold_relocate_length [of s ?n "[0..<?N]" ?init] by simp_all
  have inj: "unat (seq_num (sequence_buffer s ! j)) mod ?n
      \<noteq> unat (seq_num (sequence_buffer s ! i)) mod ?n"
    if "i < ?N" "j < ?N" "j \<noteq> i" "used (sequence_buffer s ! i)" "used (sequence_buffer s ! j)"
    for i j
  proof
    assume "unat (seq_num (sequence_buffer s ! j)) mod ?n
      = unat (seq_num (sequence_buffer s ! i)) mod ?n"
    then have "unat (seq_num (sequence_buffer s ! j)) mod ?N
      = unat (seq_num (sequence_buffer s ! i)) mod ?N"
      by (rule mod_double_inj)
    moreover have "unat (seq_num (sequence_buffer s ! i)) mod ?N = i"
      and "unat (seq_num (sequence_buffer s ! j)) mod ?N = j"
      using ri that by (auto simp: ring_inv_def)
    ultimately show False using that(3) by simp
  qed
  have moved: "snd ?nb ! (unat (seq_num (sequence_buffer s ! i)) mod ?n) = sequence_buffer s ! i \<and>
      fst ?nb ! (unat (seq_num (sequence_buffer s ! i)) mod ?n) = data_buffer s ! i"
    if "i < ?N" "used (sequence_buffer s ! i)" for i
    using fold_relocate_target [of i "[0..<?N]" s ?n ?init] that pos inj [of i] by auto
  have origin: "snd ?nb ! p = default_ContinuityInfo \<and> fst ?nb ! p = default_VCMPacket
      \<or> (\<exists>i \<in> set [0..<?N]. used (sequence_buffer s ! i) \<and>
            unat (seq_num (sequence_buffer s ! i)) mod ?n = p \<and>
            snd ?nb ! p = sequence_buffer s ! i \<and> fst ?nb ! p = data_buffer s ! i)"
    if "p < ?n" for p
    using fold_relocate_origin [of ?init ?n p s "[0..<?N]"] that by auto
  have "expanded s ?s'"
    unfolding expanded_def using len moved origin by (simp add: sized_def)
  with e show ?thesis by blast
qed


section \<open>Growth under a list of packets\<close>

text \<open>A caller that inserts the packets of a list one after the other.\<close>

fun InsertPackets :: "PacketBuffer \<Rightarrow> VCMPacket list \<Rightarrow> int \<Rightarrow> error + PacketBuffer" where
  "InsertPackets s [] now_ms = Inr s"
| "InsertPackets s (p # ps) now_ms =
     (case InsertPacket s p now_ms of
        Inl e \<Rightarrow> Inl e
      | Inr r \<Rightarrow> InsertPackets (fst (snd (snd r))) ps now_ms)"

lemma InsertPackets_append:
  "InsertPackets s (xs @ ys) now_ms =
     (case InsertPackets s xs now_ms of Inl e \<Rightarrow> Inl e | Inr t \<Rightarrow> InsertPackets t ys now_ms)"
  by (induction xs arbitrary: s) (simp_all split: sum.splits)

lemma UpdateMissingPackets_fields [simp]:
  "cur_size (UpdateMissingPackets s seq) = cur_size s"
  "max_size (UpdateMissingPackets s seq) = max_size s"
  "is_cleared_to_first_seq_num (UpdateMissingPackets s seq) = is_cleared_to_first_seq_num s"
  "data_buffer (UpdateMissingPackets s seq) = data_buffer s"
  "sequence_buffer (UpdateMissingPackets s seq) = sequence_buffer s"
  "heap (UpdateMissingPackets s seq) = heap s"
  by (simp_all add: UpdateMissingPackets_def Let_def)

lemma note_receive_times_fields [simp]:
  "cur_size (note_receive_times s p now_ms) = cur_size s"
  "max_size (note_receive_times s p now_ms) = max_size s"
  "is_cleared_to_first_seq_num (note_receive_times s p now_ms) = is_cleared_to_first_seq_num s"
  "data_buffer (note_receive_times s p now_ms) = data_buffer s"
  "sequence_buffer (note_receive_times s p now_ms) = sequence_buffer s"
  "heap (note_receive_times s p now_ms) = heap s"
  by (simp_all add: note_receive_times_def)

lemma note_first_seq_num_cleared [simp]:
  "is_cleared_to_first_seq_num (note_first_seq_num s seq) = is_cleared_to_first_seq_num s"
  by (simp add: note_first_seq_num_def)

lemma store_packet_fields [simp]:
  "cur_size (store_packet s i p) = cur_size s"
  "max_size (store_packet s i p) = max_size s"
  "is_cleared_to_first_seq_num (store_packet s i p) = is_cleared_to_first_seq_num s"
  "heap (store_packet s i p) = heap s"
  by (simp_all add: store_packet_def)

lemma prev_index_less: "i < cur_size s \<Longrightarrow> prev_index s i < cur_size s"
  by (auto simp: prev_index_def)

lemma FindFrames_nothing: "\<not> PotentialNewFrame s seq \<Longrightarrow> FindFrames s seq = Inr ([], s)"
  by (simp add: FindFrames_def FindFrames_loop.simps [of 0])
text \<open>
  \<open>holds_packets ps k s\<close>: the buffer holds exactly the first \<open>k\<close> packets of the list
  \<open>ps\<close>, each in the slot of its sequence number; no slot is marked continuous and the
  buffer has not been cleared to a marker.
\<close>

definition holds_packets :: "VCMPacket list \<Rightarrow> nat \<Rightarrow> PacketBuffer \<Rightarrow> bool" where
  "holds_packets ps k s =
     (sized s \<and> \<not> is_cleared_to_first_seq_num s \<and>
      (\<forall>i < cur_size s. \<not> continuous (sequence_buffer s ! i)) \<and>
      (\<forall>j < k.
         used (sequence_buffer s ! (unat (seqNum (ps ! j)) mod cur_size s)) \<and>
         seq_num (sequence_buffer s ! (unat (seqNum (ps ! j)) mod cur_size s)) = seqNum (ps ! j) \<and>
         data_buffer s ! (unat (seqNum (ps ! j)) mod cur_size s) = ps ! j) \<and>
      (\<forall>i < cur_size s. used (sequence_buffer s ! i) \<longrightarrow>
         (\<exists>j < k. i = unat (seqNum (ps ! j)) mod cur_size s)))"

lemma holds_packets_cong:
  assumes "holds_packets ps k s" and "cur_size t = cur_size s"
    and "sequence_buffer t = sequence_buffer s" and "data_buffer t = data_buffer s"
    and "is_cleared_to_first_seq_num t = is_cleared_to_first_seq_num s"
  shows "holds_packets ps k t"
  using assms(1) unfolding holds_packets_def sized_def assms(2-5) .

lemma holds_packetsD:
  assumes "holds_packets ps k s"
  shows "sized s" and "\<not> is_cleared_to_first_seq_num s"
    and "\<And>i. i < cur_size s \<Longrightarrow> \<not> continuous (sequence_buffer s ! i)"
    and "\<And>j. j < k \<Longrightarrow> used (sequence_buffer s ! (unat (seqNum (ps ! j)) mod cur_size s))"
    and "\<And>j. j < k \<Longrightarrow>
           seq_num (sequence_buffer s ! (unat (seqNum (ps ! j)) mod cur_size s)) = seqNum (ps ! j)"
    and "\<And>j. j < k \<Longrightarrow> data_buffer s ! (unat (seqNum (ps ! j)) mod cur_size s) = ps ! j"
    and "\<And>i. i < cur_size s \<Longrightarrow> used (sequence_buffer s ! i)
           \<Longrightarrow> \<exists>j < k. i = unat (seqNum (ps ! j)) mod cur_size s"
  using assms unfolding holds_packets_def by blast+

lemma insert_at_held:
  assumes hr: "holds_packets ps k s"
    and free: "\<not> used (sequence_buffer s ! (unat (seqNum p) mod cur_size s))"
    and pos: "0 < cur_size s"
    and pk: "\<not> is_first_packet_in_frame (video_header p)" "ps ! k = p"
  shows "\<exists>s'. insert_at s (unat (seqNum p) mod cur_size s) p now_ms
               = Inr (True, p\<lparr>dataPtr := None\<rparr>, s', [])
           \<and> holds_packets ps (Suc k) s' \<and> cur_size s' = cur_size s
           \<and> max_size s' = max_size s \<and> heap s' = heap s"
proof -
  let ?N = "cur_size s"
  let ?i = "unat (seqNum p) mod ?N"
  let ?s3 = "note_receive_times (UpdateMissingPackets (store_packet s ?i p) (seqNum p)) p now_ms"
  have i: "?i < ?N" using pos by simp
  note d = holds_packetsD [OF hr]
  have len: "length (sequence_buffer s) = ?N" "length (data_buffer s) = ?N"
    using d(1) by (simp_all add: sized_def)
  have sb: "sequence_buffer (store_packet s ?i p) = (sequence_buffer s)[?i :=
      \<lparr>seq_num = seqNum p, frame_begin = False,
       frame_end = is_last_packet_in_frame (video_header p),
       used = True, continuous = False, frame_created = False\<rparr>]"
    and db: "data_buffer (store_packet s ?i p) = (data_buffer s)[?i := p]"
    using pk(1) by (simp_all add: store_packet_def)
  have nc: "\<not> continuous (sequence_buffer ?s3 ! q)" if "q < ?N" for q
    using that d(3) [of q] len by (simp add: sb nth_list_update)
  have "prev_index ?s3 ?i < ?N"
    using prev_index_less [of ?i ?s3] i by simp
  from nc [OF this] have "\<not> PotentialNewFrame ?s3 (seqNum p)"
    using i len by (simp add: PotentialNewFrame_def Let_def sb)
  then have ins: "insert_at s ?i p now_ms = Inr (True, p\<lparr>dataPtr := None\<rparr>, ?s3, [])"
    by (simp add: insert_at_def FindFrames_nothing)
  have other: "unat (seqNum (ps ! j)) mod ?N \<noteq> ?i" if "j < k" for j
    using d(4) [OF that] free by auto
  have A: "sized ?s3" using len by (simp add: sized_def sb db)
  have B: "\<not> is_cleared_to_first_seq_num ?s3" using d(2) by simp
  have C: "\<forall>q < cur_size ?s3. \<not> continuous (sequence_buffer ?s3 ! q)"
    using nc by simp
  have D: "used (sequence_buffer ?s3 ! (unat (seqNum (ps ! j)) mod cur_size ?s3)) \<and>
      seq_num (sequence_buffer ?s3 ! (unat (seqNum (ps ! j)) mod cur_size ?s3)) = seqNum (ps ! j) \<and>
      data_buffer ?s3 ! (unat (seqNum (ps ! j)) mod cur_size ?s3) = ps ! j"
    if j: "j < Suc k" for j
  proof (cases "j = k")
    case True
    then show ?thesis
      using i len pk by (simp add: sb db)
  next
    case False
    with j have jk: "j < k" by simp
    from d(4-6) [OF jk] other [OF jk] show ?thesis
      by (simp add: sb db)
  qed
  have E: "\<exists>j < Suc k. q = unat (seqNum (ps ! j)) mod cur_size ?s3"
    if q: "q < cur_size ?s3" and u: "used (sequence_buffer ?s3 ! q)" for q
  proof (cases "q = ?i")
    case True
    then show ?thesis using pk(2) by (auto intro!: exI [of _ k])
  next
    case False
    with u have "used (sequence_buffer s ! q)" by (simp add: sb)
    with d(7) [of q] q obtain j where "j < k" "q = unat (seqNum (ps ! j)) mod ?N"
      by auto
    then show ?thesis by (auto intro!: exI [of _ j])
  qed
  have "holds_packets ps (Suc k) ?s3"
    unfolding holds_packets_def using A B C D E by blast
  with ins show ?thesis by auto
qed

lemma holds_packets_ring_inv:
  assumes "holds_packets ps k s"
  shows "ring_inv s"
proof -
  note d = holds_packetsD [OF assms]
  have "seq_num (sequence_buffer s ! i) = seqNum (data_buffer s ! i) \<and>
      unat (seq_num (sequence_buffer s ! i)) mod cur_size s = i"
    if "i < cur_size s" "used (sequence_buffer s ! i)" for i
  proof -
    from d(7) [OF that] obtain j where j: "j < k" "i = unat (seqNum (ps ! j)) mod cur_size s"
      by auto
    from d(5,6) [OF j(1)] j(2) show ?thesis by simp
  qed
  note r = this
  show ?thesis
    unfolding ring_inv_def
  proof (intro ballI impI)
    fix i
    assume "i \<in> set [0..<cur_size s]" and u: "used (sequence_buffer s ! i)"
    then have "i < cur_size s" by simp
    from r [OF this u]
    show "seq_num (sequence_buffer s ! i) = seqNum (data_buffer s ! i) \<and>
      unat (seq_num (sequence_buffer s ! i)) mod cur_size s = i" .
  qed
qed


lemma expanded_fields:
  assumes "expanded s s'"
  shows "cur_size s' = 2 * cur_size s" and "sized s'"
    and "is_cleared_to_first_seq_num s' = is_cleared_to_first_seq_num s"
    and "max_size s' = max_size s" and "heap s' = heap s"
proof -
  from assms have eq: "s' = s\<lparr>cur_size := cur_size s', sequence_buffer := sequence_buffer s',
      data_buffer := data_buffer s'\<rparr>"
    unfolding expanded_def by blast
  show "cur_size s' = 2 * cur_size s" and "sized s'"
    using assms unfolding expanded_def by blast+
  show "is_cleared_to_first_seq_num s' = is_cleared_to_first_seq_num s"
    by (subst eq) simp
  show "max_size s' = max_size s"
    by (subst eq) simp
  show "heap s' = heap s"
    by (subst eq) simp
qed

lemma expanded_holds:
  assumes h: "holds_packets ps k s" and e: "expanded s s'" and pos: "0 < cur_size s"
  shows "holds_packets ps k s'"
proof -
  note d = holds_packetsD [OF h]
  note f = expanded_fields [OF e]
  have copy: "sequence_buffer s' ! (unat (seq_num (sequence_buffer s ! i)) mod cur_size s')
        = sequence_buffer s ! i \<and>
      data_buffer s' ! (unat (seq_num (sequence_buffer s ! i)) mod cur_size s')
        = data_buffer s ! i"
    if "i < cur_size s" "used (sequence_buffer s ! i)" for i
  proof -
    from e have "\<forall>i \<in> set [0..<cur_size s].
         used (sequence_buffer s ! i) \<longrightarrow>
           sequence_buffer s' ! (unat (seq_num (sequence_buffer s ! i)) mod cur_size s')
             = sequence_buffer s ! i \<and>
           data_buffer s' ! (unat (seq_num (sequence_buffer s ! i)) mod cur_size s')
             = data_buffer s ! i"
      unfolding expanded_def by blast
    with that show ?thesis by simp
  qed
  have origin: "sequence_buffer s' ! p = default_ContinuityInfo
      \<or> (\<exists>i < cur_size s. used (sequence_buffer s ! i) \<and>
            unat (seq_num (sequence_buffer s ! i)) mod cur_size s' = p \<and>
            sequence_buffer s' ! p = sequence_buffer s ! i)"
    if "p < cur_size s'" for p
  proof -
    from e have "\<forall>p \<in> set [0..<cur_size s'].
        sequence_buffer s' ! p = default_ContinuityInfo \<and>
          data_buffer s' ! p = default_VCMPacket
       \<or> (\<exists>i \<in> set [0..<cur_size s].
             used (sequence_buffer s ! i) \<and>
             unat (seq_num (sequence_buffer s ! i)) mod cur_size s' = p \<and>
             sequence_buffer s' ! p = sequence_buffer s ! i \<and>
             data_buffer s' ! p = data_buffer s ! i)"
      unfolding expanded_def by blast
    moreover have "p \<in> set [0..<cur_size s']" using that by simp
    ultimately have "sequence_buffer s' ! p = default_ContinuityInfo \<and>
          data_buffer s' ! p = default_VCMPacket
       \<or> (\<exists>i \<in> set [0..<cur_size s].
             used (sequence_buffer s ! i) \<and>
             unat (seq_num (sequence_buffer s ! i)) mod cur_size s' = p \<and>
             sequence_buffer s' ! p = sequence_buffer s ! i \<and>
             data_buffer s' ! p = data_buffer s ! i)"
      by (rule bspec)
    then show ?thesis by auto
  qed
  have A: "sized s'" by (rule f(2))
  have B: "\<not> is_cleared_to_first_seq_num s'" using d(2) f(3) by simp
  have C: "\<not> continuous (sequence_buffer s' ! p)" if "p < cur_size s'" for p
    using origin [OF that] d(3) by (auto simp: default_ContinuityInfo_def)
  have D: "used (sequence_buffer s' ! (unat (seqNum (ps ! j)) mod cur_size s')) \<and>
      seq_num (sequence_buffer s' ! (unat (seqNum (ps ! j)) mod cur_size s')) = seqNum (ps ! j) \<and>
      data_buffer s' ! (unat (seqNum (ps ! j)) mod cur_size s') = ps ! j"
    if j: "j < k" for j
  proof -
    let ?i = "unat (seqNum (ps ! j)) mod cur_size s"
    have i: "?i < cur_size s" using pos by simp
    from copy [OF i d(4) [OF j]] d(4-6) [OF j] show ?thesis
      by simp
  qed
  have E: "\<exists>j < k. p = unat (seqNum (ps ! j)) mod cur_size s'"
    if p: "p < cur_size s'" and u: "used (sequence_buffer s' ! p)" for p
  proof -
    from origin [OF p] u obtain i where i: "i < cur_size s" "used (sequence_buffer s ! i)"
      "unat (seq_num (sequence_buffer s ! i)) mod cur_size s' = p"
      by (auto simp: default_ContinuityInfo_def)
    from d(7) [OF i(1,2)] obtain j where j: "j < k" "i = unat (seqNum (ps ! j)) mod cur_size s"
      by auto
    from d(5) [OF j(1)] j(2) i(3) have "p = unat (seqNum (ps ! j)) mod cur_size s'"
      by simp
    with j(1) show ?thesis by auto
  qed
  show ?thesis
    unfolding holds_packets_def using A B C D E by blast
qed


text \<open>
  One more packet of the list: its slot is free, or the buffer is at the capacity \<open>N\<close>
  and one call of \<open>ExpandBufferSize\<close> frees the slot.
\<close>



lemma InsertPacket_held:
  assumes h: "holds_packets ps k s"
    and pk: "ps ! k = p" "\<not> is_first_packet_in_frame (video_header p)"
    and pos: "0 < N"
    and cap: "cur_size s = N \<and> 2 * N \<le> max_size s \<or> cur_size s = 2 * N"
    and dist: "\<And>j. j < k \<Longrightarrow>
      unat (seqNum (ps ! j)) mod (2 * N) \<noteq> unat (seqNum p) mod (2 * N)"
  shows "\<exists>s'. InsertPacket s p now_ms = Inr (True, p\<lparr>dataPtr := None\<rparr>, s', [])
           \<and> holds_packets ps (Suc k) s' \<and> max_size s' = max_size s \<and> heap s' = heap s
           \<and> (cur_size s' = cur_size s \<or> cur_size s = N \<and> cur_size s' = 2 * N)"
proof -
  let ?s0 = "OnTimestampReceived s (timestamp p)"
  let ?s1 = "note_first_seq_num ?s0 (seqNum p)"
  let ?i = "unat (seqNum p) mod cur_size s"
  have cpos: "0 < cur_size s" using pos cap by auto
  have h1: "holds_packets ps k ?s1"
    using h by (rule holds_packets_cong) simp_all
  note d = holds_packetsD [OF h]
  have ns: "\<not> stale_packet s p"
    using d(2) by (simp add: stale_packet_def)
  show ?thesis
  proof (cases "used (sequence_buffer s ! ?i)")
    case False
    then have unf: "InsertPacket s p now_ms = insert_at ?s1 ?i p now_ms"
      using cpos ns by (auto simp: InsertPacket_def stale_packet_def Let_def)
    from insert_at_held [OF h1 _ _ pk(2,1), of now_ms] False cpos
    obtain s' where "insert_at ?s1 ?i p now_ms = Inr (True, p\<lparr>dataPtr := None\<rparr>, s', [])"
      and "holds_packets ps (Suc k) s'" and "cur_size s' = cur_size s"
      and "max_size s' = max_size s" and "heap s' = heap s"
      by auto
    with unf show ?thesis by auto
  next
    case u: True
    have i: "?i < cur_size s" using cpos by simp
    from d(7) [OF i u] obtain j where j: "j < k" "?i = unat (seqNum (ps ! j)) mod cur_size s"
      by blast
    have held: "data_buffer s ! ?i = ps ! j"
      unfolding j(2) by (rule d(6) [OF j(1)])
    have ne: "seqNum (ps ! j) \<noteq> seqNum p"
      using dist [OF j(1)] by auto
    have "cur_size s \<noteq> 2 * N"
    proof
      assume "cur_size s = 2 * N"
      with j(2) have "unat (seqNum (ps ! j)) mod (2 * N) = unat (seqNum p) mod (2 * N)"
        by (simp only:)
      with dist [OF j(1)] show False by (simp only: not_True_eq_False)
    qed
    with cap have N: "cur_size s = N" and le: "2 * N \<le> max_size s"
      by blast+
    have sz1: "sized ?s1" by (rule holds_packetsD(1) [OF h1])
    have ri1: "ring_inv ?s1" by (rule holds_packets_ring_inv [OF h1])
    have le1: "2 * cur_size ?s1 \<le> max_size ?s1" using le N by simp
    have pos1: "0 < cur_size ?s1" using cpos by simp
    from ExpandBufferSize_expanded [OF sz1 ri1 le1 pos1] obtain s2 where e: "ExpandBufferSize ?s1 = Inr (True, s2)" and x: "expanded ?s1 s2"
      by blast
    note f = expanded_fields [OF x]
    have c2: "cur_size s2 = 2 * N" using f(1) N by simp
    have h2: "holds_packets ps k s2"
      using h1 x by (rule expanded_holds) (simp add: cpos)
    have free: "\<not> used (sequence_buffer s2 ! (unat (seqNum p) mod cur_size s2))"
    proof
      assume "used (sequence_buffer s2 ! (unat (seqNum p) mod cur_size s2))"
      with holds_packetsD(7) [OF h2, of "unat (seqNum p) mod cur_size s2"] pos c2
      obtain j' where "j' < k"
        "unat (seqNum p) mod cur_size s2 = unat (seqNum (ps ! j')) mod cur_size s2"
        by auto
      with dist [of j'] c2 show False by simp
    qed
    have grow: "expand_loop ?s1 (seqNum p) = Inr s2"
      using e free c2 pos by (subst expand_loop.simps) simp
    have unf: "InsertPacket s p now_ms
        = insert_at s2 (unat (seqNum p) mod cur_size s2) p now_ms"
      using cpos ns u held ne grow free
      by (auto simp: InsertPacket_def stale_packet_def Let_def)
    from insert_at_held [OF h2 free _ pk(2,1), of now_ms] pos c2
    obtain s' where "insert_at s2 (unat (seqNum p) mod cur_size s2) p now_ms
        = Inr (True, p\<lparr>dataPtr := None\<rparr>, s', [])"
      and "holds_packets ps (Suc k) s'" and "cur_size s' = cur_size s2"
      and "max_size s' = max_size s2" and "heap s' = heap s2"
      by auto
    with unf f(4,5) c2 N show ?thesis by auto
  qed
qed



text \<open>The packets that a buffer holds are in slots of their own.\<close>

lemma held_capacity:
  assumes h: "holds_packets ps k s"
    and dist: "\<And>i j. i < j \<Longrightarrow> j < k \<Longrightarrow> seqNum (ps ! i) \<noteq> seqNum (ps ! j)"
    and pos: "0 < cur_size s"
  shows "k \<le> cur_size s"
proof -
  let ?f = "\<lambda>j. unat (seqNum (ps ! j)) mod cur_size s"
  note d = holds_packetsD [OF h]
  have "inj_on ?f {..<k}"
  proof (rule inj_onI)
    fix i j
    assume i: "i \<in> {..<k}" and j: "j \<in> {..<k}" and e: "?f i = ?f j"
    have il: "i < k" and jl: "j < k" using i j by simp_all
    have "ps ! i = data_buffer s ! ?f i"
      by (rule d(6) [OF il, symmetric])
    also have "\<dots> = data_buffer s ! ?f j"
      by (simp only: e)
    also have "\<dots> = ps ! j"
      by (rule d(6) [OF jl])
    finally have same: "ps ! i = ps ! j" .
    show "i = j"
    proof (rule ccontr)
      assume "i \<noteq> j"
      then consider "i < j" | "j < i" by arith
      then show False
      proof cases
        case 1
        from dist [OF 1 jl] same show False by (simp only: not_True_eq_False)
      next
        case 2
        from dist [OF 2 il] same show False by (simp only: not_True_eq_False)
      qed
    qed
  qed
  moreover have "?f ` {..<k} \<subseteq> {..<cur_size s}"
    using pos by auto
  ultimately have "card {..<k} \<le> card {..<cur_size s}"
    by (intro card_inj_on_le) simp_all
  then show ?thesis by simp
qed

lemma InsertPackets_held:
  assumes h0: "holds_packets ps 0 s0" and c0: "cur_size s0 = N" and pos: "0 < N"
    and le: "2 * N \<le> max_size s0"
    and nf: "\<And>j. j < length ps \<Longrightarrow> \<not> is_first_packet_in_frame (video_header (ps ! j))"
    and dist: "\<And>j k. j < k \<Longrightarrow> k < length ps \<Longrightarrow>
      unat (seqNum (ps ! j)) mod (2 * N) \<noteq> unat (seqNum (ps ! k)) mod (2 * N)"
  shows "k \<le> length ps \<Longrightarrow>
    \<exists>s'. InsertPackets s0 (take k ps) now_ms = Inr s' \<and> holds_packets ps k s'
        \<and> max_size s' = max_size s0 \<and> heap s' = heap s0
        \<and> (cur_size s' = N \<or> cur_size s' = 2 * N)"
proof (induction k)
  case 0
  with h0 c0 show ?case by simp
next
  case (Suc k)
  then have k: "k < length ps" by simp
  with Suc.IH obtain t where t: "InsertPackets s0 (take k ps) now_ms = Inr t"
    and ht: "holds_packets ps k t" and mt: "max_size t = max_size s0"
    and pt: "heap t = heap s0" and ct: "cur_size t = N \<or> cur_size t = 2 * N"
    by auto
  have cap: "cur_size t = N \<and> 2 * N \<le> max_size t \<or> cur_size t = 2 * N"
    using ct le mt by auto
  from InsertPacket_held [OF ht refl nf [OF k] pos cap, of now_ms] dist [OF _ k]
  obtain s' where s': "InsertPacket t (ps ! k) now_ms
        = Inr (True, (ps ! k)\<lparr>dataPtr := None\<rparr>, s', [])"
    and hs: "holds_packets ps (Suc k) s'" and ms: "max_size s' = max_size t"
    and ps: "heap s' = heap t"
    and cs: "cur_size s' = cur_size t \<or> cur_size t = N \<and> cur_size s' = 2 * N"
    by blast
  have "take (Suc k) ps = take k ps @ [ps ! k]"
    using k by (rule take_Suc_conv_app_nth)
  then have "InsertPackets s0 (take (Suc k) ps) now_ms = Inr s'"
    by (simp add: InsertPackets_append t s')
  moreover have "cur_size s' = N \<or> cur_size s' = 2 * N"
    using cs ct by auto
  ultimately show ?case
    using hs ms mt ps pt by auto
qed


text \<open>A packet with no frame boundary: neither the first nor the last of its frame.\<close>

definition no_frame_boundary :: "VCMPacket \<Rightarrow> bool" where
  "no_frame_boundary p =
     (\<not> is_first_packet_in_frame (video_header p) \<and> \<not> is_last_packet_in_frame (video_header p))"

lemma holds_packets_new:
  "holds_packets ps 0 ((new_PacketBuffer N M ft)\<lparr>heap := h\<rparr>)"
  by (simp add: holds_packets_def sized_def new_PacketBuffer_def default_ContinuityInfo_def)

lemma holds_packets_GetPacket:
  assumes "holds_packets ps k s" and "j < k"
  shows "GetPacket s (seqNum (ps ! j)) = Some (ps ! j)"
  using holds_packetsD(4-6) [OF assms] by (simp add: GetPacket_def Let_def)

text \<open>
  Three packets with distinct sequence numbers and no frame boundary. 0 and 4 need the
  same slot of a buffer of two and of four slots.
\<close>

definition colliding_packets :: "VCMPacket list" where
  "colliding_packets =
     [test_packet 0 7 False False, test_packet 4 7 False False, test_packet 1 7 False False]"

text \<open>
  C3 as stated fails for packets that need the same slot after the doubling. Inserting
  the three packets 0, 4 and 1 into a new buffer of start capacity 2 and maximal capacity
  8 doubles the capacity twice, to 8. With the maximal capacity 4 the one doubling does
  not free the slot of packet 4: the buffer is cleared, and of the three packets only
  packet 1 is in the buffer afterwards.
\<close>

theorem growth_counterexample:
  "length colliding_packets = 2 + 1
   \<and> distinct (map seqNum colliding_packets)
   \<and> list_all no_frame_boundary colliding_packets
   \<and> map_sum id cur_size (InsertPackets (new_PacketBuffer 2 8 False) colliding_packets 0)
       = Inr 8
   \<and> map_sum id used_slots (InsertPackets (new_PacketBuffer 2 4 False) colliding_packets 0)
       = Inr [1]
   \<and> map_sum id cur_size (InsertPackets (new_PacketBuffer 2 4 False) colliding_packets 0)
       = Inr 4"
  by code_simp


text \<open>
  C3, amended. In a state that satisfies the invariants of the two vectors and of the
  ring, with the capacity below the maximal capacity, \<open>ExpandBufferSize\<close> returns true,
  doubles the capacity and has every used slot, with its flags, packet record and payload
  pointer, at the index of its sequence number modulo the new capacity; every other slot
  is empty and nothing else changes. Consequently, inserting \<open>N + 1\<close> packets with no
  frame boundary whose sequence numbers are pairwise distinct modulo \<open>2 * N\<close> into a new
  buffer of start capacity \<open>N\<close> and maximal capacity at least \<open>2 * N\<close> succeeds with
  exactly one doubling: the capacity is \<open>N\<close> or \<open>2 * N\<close> after every packet and \<open>2 * N\<close>
  at the end, no payload is freed, and \<open>GetPacket\<close> finds every one of the packets.
\<close>

theorem growth_keeps_packets:
  "(buffer_inv start s \<and> ring_inv s \<and> cur_size s < max_size s
      \<longrightarrow> (\<exists>s'. ExpandBufferSize s = Inr (True, s') \<and> expanded s s'))
   \<and> (0 < N \<and> 2 * N \<le> M \<and> length ps = N + 1
       \<and> list_all no_frame_boundary ps
       \<and> distinct (map (\<lambda>p. unat (seqNum p) mod (2 * N)) ps)
      \<longrightarrow> (\<exists>s'. InsertPackets ((new_PacketBuffer N M ft)\<lparr>heap := h\<rparr>) ps now_ms = Inr s'
              \<and> cur_size s' = 2 * N \<and> max_size s' = M \<and> heap s' = h
              \<and> (\<forall>j \<le> N. GetPacket s' (seqNum (ps ! j)) = Some (ps ! j)))
          \<and> (\<forall>k \<le> N. \<exists>t. InsertPackets ((new_PacketBuffer N M ft)\<lparr>heap := h\<rparr>) (take k ps)
                              now_ms = Inr t
                          \<and> (cur_size t = N \<or> cur_size t = 2 * N)))"
proof (intro conjI impI)
  assume a: "buffer_inv start s \<and> ring_inv s \<and> cur_size s < max_size s"
  then have "sized s" and "ring_inv s" and "0 < cur_size s"
    by (simp_all add: buffer_inv_def is_pow2_pos)
  moreover from a have "2 * cur_size s \<le> max_size s"
    by (intro pow2_double(1)) (simp_all add: buffer_inv_def)
  ultimately show "\<exists>s'. ExpandBufferSize s = Inr (True, s') \<and> expanded s s'"
    by (intro ExpandBufferSize_expanded)
next
  let ?s0 = "(new_PacketBuffer N M ft)\<lparr>heap := h\<rparr>"
  assume b: "0 < N \<and> 2 * N \<le> M \<and> length ps = N + 1
       \<and> list_all no_frame_boundary ps
       \<and> distinct (map (\<lambda>p. unat (seqNum p) mod (2 * N)) ps)"
  then have pos: "0 < N" and len: "length ps = N + 1" by simp_all
  have c0: "cur_size ?s0 = N" and le: "2 * N \<le> max_size ?s0" and m0: "max_size ?s0 = M"
    and p0: "heap ?s0 = h"
    using b by (simp_all add: new_PacketBuffer_def)
  have nf: "\<not> is_first_packet_in_frame (video_header (ps ! j))" if "j < length ps" for j
  proof -
    from b have "list_all no_frame_boundary ps" by simp
    with that have "no_frame_boundary (ps ! j)" by (simp add: list_all_length)
    then show ?thesis by (simp add: no_frame_boundary_def)
  qed
  have dm: "unat (seqNum (ps ! j)) mod (2 * N) \<noteq> unat (seqNum (ps ! k)) mod (2 * N)"
    if "j < k" "k < length ps" for j k
  proof -
    from b have d: "distinct (map (\<lambda>p. unat (seqNum p) mod (2 * N)) ps)" by simp
    have "map (\<lambda>p. unat (seqNum p) mod (2 * N)) ps ! j
        \<noteq> map (\<lambda>p. unat (seqNum p) mod (2 * N)) ps ! k"
      using nth_eq_iff_index_eq [OF d, of j k] that by simp
    with that show ?thesis by simp
  qed
  have run: "\<exists>s'. InsertPackets ?s0 (take k ps) now_ms = Inr s' \<and> holds_packets ps k s'
        \<and> max_size s' = max_size ?s0 \<and> heap s' = heap ?s0
        \<and> (cur_size s' = N \<or> cur_size s' = 2 * N)"
    if "k \<le> length ps" for k
    using holds_packets_new c0 pos le nf dm that by (rule InsertPackets_held)
  from run [of "length ps"] m0 p0
  obtain s' where s': "InsertPackets ?s0 ps now_ms = Inr s'"
    and hs: "holds_packets ps (N + 1) s'" and ms: "max_size s' = M" and ps: "heap s' = h"
    and cs: "cur_size s' = N \<or> cur_size s' = 2 * N"
    using len by auto
  have "cur_size s' \<noteq> N"
  proof
    assume n: "cur_size s' = N"
    have "N + 1 \<le> cur_size s'"
    proof (rule held_capacity [OF hs])
      fix i j
      assume "i < j" and "j < N + 1"
      with dm [of i j] len show "seqNum (ps ! i) \<noteq> seqNum (ps ! j)" by auto
    next
      show "0 < cur_size s'" using n pos by simp
    qed
    with n show False by simp
  qed
  with cs have c2: "cur_size s' = 2 * N" by simp
  have "GetPacket s' (seqNum (ps ! j)) = Some (ps ! j)" if "j \<le> N" for j
    using hs that by (intro holds_packets_GetPacket [of ps "N + 1"]) simp_all
  with s' c2 ms ps
  show "\<exists>s'. InsertPackets ?s0 ps now_ms = Inr s'
      \<and> cur_size s' = 2 * N \<and> max_size s' = M \<and> heap s' = h
      \<and> (\<forall>j \<le> N. GetPacket s' (seqNum (ps ! j)) = Some (ps ! j))"
    by blast
  show "\<forall>k \<le> N. \<exists>t. InsertPackets ?s0 (take k ps) now_ms = Inr t
      \<and> (cur_size t = N \<or> cur_size t = 2 * N)"
  proof (intro allI impI)
    fix k
    assume "k \<le> N"
    then have "k \<le> length ps" using len by simp
    from run [OF this]
    show "\<exists>t. InsertPackets ?s0 (take k ps) now_ms = Inr t
      \<and> (cur_size t = N \<or> cur_size t = 2 * N)"
      by blast
  qed
qed

text \<open>Three packets with consecutive sequence numbers and no frame boundary.\<close>

definition consecutive_packets :: "VCMPacket list" where
  "consecutive_packets =
     [test_packet 0 7 False False, test_packet 1 7 False False, test_packet 2 7 False False]"

theorem growth_keeps_packets_witness:
  "buffer_inv 2 two_packets \<and> ring_inv two_packets \<and> cur_size two_packets < max_size two_packets
   \<and> (\<exists>s'. ExpandBufferSize two_packets = Inr (True, s') \<and> expanded two_packets s'
          \<and> cur_size s' = 4)
   \<and> length consecutive_packets = 2 + 1
   \<and> list_all no_frame_boundary consecutive_packets
   \<and> distinct (map (\<lambda>p. unat (seqNum p) mod (2 * 2)) consecutive_packets)
   \<and> (\<exists>s'. InsertPackets ((new_PacketBuffer 2 4 False)\<lparr>heap := []\<rparr>) consecutive_packets 0
              = Inr s'
          \<and> cur_size s' = 4
          \<and> GetPacket s' 0 = Some (test_packet 0 7 False False)
          \<and> GetPacket s' 1 = Some (test_packet 1 7 False False)
          \<and> GetPacket s' 2 = Some (test_packet 2 7 False False))"
proof -
  have a: "buffer_inv 2 two_packets \<and> ring_inv two_packets
      \<and> cur_size two_packets < max_size two_packets"
    by code_simp
  have b: "(0::nat) < 2 \<and> 2 * 2 \<le> (4::nat) \<and> length consecutive_packets = 2 + 1
      \<and> list_all no_frame_boundary consecutive_packets
      \<and> distinct (map (\<lambda>p. unat (seqNum p) mod (2 * 2)) consecutive_packets)"
    by code_simp
  have n: "consecutive_packets ! 0 = test_packet 0 7 False False"
    "consecutive_packets ! 1 = test_packet 1 7 False False"
    "consecutive_packets ! 2 = test_packet 2 7 False False"
    "seqNum (test_packet 0 7 False False) = 0" "seqNum (test_packet 1 7 False False) = 1"
    "seqNum (test_packet 2 7 False False) = 2"
    by (simp_all add: consecutive_packets_def test_packet_def)
  note t = growth_keeps_packets [where start = 2 and s = two_packets and N = 2 and M = 4
      and ps = consecutive_packets and ft = False and h = "[]" and now_ms = 0]
  from t a obtain s1 where s1: "ExpandBufferSize two_packets = Inr (True, s1)"
    "expanded two_packets s1"
    by blast
  then have "cur_size s1 = 2 * cur_size two_packets"
    by (simp add: expanded_fields)
  moreover have "cur_size two_packets = 2" by code_simp
  ultimately have c: "cur_size s1 = 4" by simp
  from t b obtain s2 where s2:
    "InsertPackets ((new_PacketBuffer 2 4 False)\<lparr>heap := []\<rparr>) consecutive_packets 0 = Inr s2"
    "cur_size s2 = 2 * 2"
    "\<forall>j \<le> 2. GetPacket s2 (seqNum (consecutive_packets ! j)) = Some (consecutive_packets ! j)"
    by blast
  from s2(3) have "GetPacket s2 (seqNum (consecutive_packets ! 0)) = Some (consecutive_packets ! 0)"
    "GetPacket s2 (seqNum (consecutive_packets ! 1)) = Some (consecutive_packets ! 1)"
    "GetPacket s2 (seqNum (consecutive_packets ! 2)) = Some (consecutive_packets ! 2)"
    by simp_all
  then have g: "GetPacket s2 0 = Some (test_packet 0 7 False False)"
    "GetPacket s2 1 = Some (test_packet 1 7 False False)"
    "GetPacket s2 2 = Some (test_packet 2 7 False False)"
    by (simp_all only: n)
  from a b s1 c s2(1,2) g show ?thesis
    by (intro conjI exI [of _ s1] exI [of _ s2]) simp_all
qed

section \<open>The invariant of the ring\<close>

text \<open>
  \<open>ring_inv\<close> holds in a new buffer and is kept, together with \<open>buffer_inv\<close>, by every
  public operation.
\<close>

lemma ring_inv_new: "ring_inv (new_PacketBuffer a b c)"
  by (simp add: ring_inv_def new_PacketBuffer_def default_ContinuityInfo_def)

lemma ring_inv_keeps:
  assumes "ring_inv s" and "keeps_seqs s s'"
  shows "ring_inv s'"
  using assms by (auto simp: ring_inv_def keeps_seqs_def)

lemma ring_inv_heap: "ring_inv (s\<lparr>heap := h\<rparr>) = ring_inv s"
  by (simp add: ring_inv_def)

lemma ring_inv_store_packet:
  assumes "ring_inv s" and "sized s" and "0 < cur_size s"
  shows "ring_inv (store_packet s (unat (seqNum packet) mod cur_size s) packet)"
  using assms by (auto simp: ring_inv_def sized_def store_packet_def nth_list_update)

lemma expanded_ring_inv:
  assumes e: "expanded s s'" and r: "ring_inv s"
  shows "ring_inv s'"
  unfolding ring_inv_def
proof (intro ballI impI)
  fix p
  assume p: "p \<in> set [0..<cur_size s']" and u: "used (sequence_buffer s' ! p)"
  from e have "\<forall>p \<in> set [0..<cur_size s'].
      sequence_buffer s' ! p = default_ContinuityInfo \<and>
        data_buffer s' ! p = default_VCMPacket
     \<or> (\<exists>i \<in> set [0..<cur_size s].
           used (sequence_buffer s ! i) \<and>
           unat (seq_num (sequence_buffer s ! i)) mod cur_size s' = p \<and>
           sequence_buffer s' ! p = sequence_buffer s ! i \<and>
           data_buffer s' ! p = data_buffer s ! i)"
    unfolding expanded_def by blast
  from bspec [OF this p]
  have "sequence_buffer s' ! p = default_ContinuityInfo \<and>
        data_buffer s' ! p = default_VCMPacket
     \<or> (\<exists>i \<in> set [0..<cur_size s].
           used (sequence_buffer s ! i) \<and>
           unat (seq_num (sequence_buffer s ! i)) mod cur_size s' = p \<and>
           sequence_buffer s' ! p = sequence_buffer s ! i \<and>
           data_buffer s' ! p = data_buffer s ! i)" .
  moreover have "sequence_buffer s' ! p \<noteq> default_ContinuityInfo"
    using u by (auto simp: default_ContinuityInfo_def)
  ultimately obtain i where i: "i \<in> set [0..<cur_size s]"
    "used (sequence_buffer s ! i)"
    "unat (seq_num (sequence_buffer s ! i)) mod cur_size s' = p"
    "sequence_buffer s' ! p = sequence_buffer s ! i" "data_buffer s' ! p = data_buffer s ! i"
    by blast
  from r i(1,2) have "seq_num (sequence_buffer s ! i) = seqNum (data_buffer s ! i)"
    unfolding ring_inv_def by blast
  then show "seq_num (sequence_buffer s' ! p) = seqNum (data_buffer s' ! p) \<and>
    unat (seq_num (sequence_buffer s' ! p)) mod cur_size s' = p"
    unfolding i(4) i(5) using i(3) by blast
qed

lemma ring_inv_ExpandBufferSize:
  assumes inv: "buffer_inv start s" and r: "ring_inv s"
    and e: "ExpandBufferSize s = Inr (True, s')"
  shows "ring_inv s'"
proof -
  have ne: "cur_size s \<noteq> max_size s"
    using e by (auto simp: ExpandBufferSize_def Let_def split: if_splits)
  with inv have lt: "cur_size s < max_size s"
    by (simp add: buffer_inv_def)
  have "sized s" and "0 < cur_size s"
    using inv by (simp_all add: buffer_inv_def is_pow2_pos)
  moreover have "2 * cur_size s \<le> max_size s"
    using inv lt by (intro pow2_double(1)) (simp_all add: buffer_inv_def)
  ultimately have "\<exists>t. ExpandBufferSize s = Inr (True, t) \<and> expanded s t"
    using r by (intro ExpandBufferSize_expanded)
  with e have "expanded s s'" by auto
  then show ?thesis using r by (rule expanded_ring_inv)
qed

lemma ring_inv_expand_loop:
  assumes "buffer_inv start s" and "ring_inv s" and "expand_loop s seq = Inr s'"
  shows "ring_inv s'"
  using assms
proof (induction s seq rule: expand_loop.induct)
  case (1 s seq)
  show ?case
  proof (cases "ExpandBufferSize s")
    case (Inl e)
    with "1.prems"(3) show ?thesis
      by (subst (asm) expand_loop.simps) simp
  next
    case (Inr r)
    show ?thesis
    proof (cases "fst r")
      case False
      then have r: "ExpandBufferSize s = Inr (False, snd r)"
        using Inr by (cases r) simp
      from "1.prems"(3) Inr False have "s' = snd r"
        by (subst (asm) expand_loop.simps) simp
      with ExpandBufferSize_False [OF r] "1.prems"(2) show ?thesis
        by simp
    next
      case True
      then have r: "ExpandBufferSize s = Inr (True, snd r)"
        using Inr by (cases r) simp
      note i = buffer_inv_ExpandBufferSize [OF "1.prems"(1) r]
      note j = ring_inv_ExpandBufferSize [OF "1.prems"(1,2) r]
      show ?thesis
      proof (cases "cur_size (snd r) \<noteq> 0 \<and>
          used (sequence_buffer (snd r) ! (unat seq mod cur_size (snd r)))")
        case go: True
        with "1.prems"(3) Inr True have "expand_loop (snd r) seq = Inr s'"
          by (subst (asm) expand_loop.simps) simp
        from "1.IH" [OF Inr _ _ _ i j this] True go show ?thesis
          by auto
      next
        case stop: False
        with "1.prems"(3) Inr True have "s' = snd r"
          by (subst (asm) expand_loop.simps) (auto split: if_splits)
        with j show ?thesis by simp
      qed
    qed
  qed
qed

lemma ring_inv_insert_at:
  assumes "buffer_inv start s" and "ring_inv s"
    and "insert_at s (unat (seqNum packet) mod cur_size s) packet now_ms = Inr r"
  shows "ring_inv (fst (snd (snd r)))"
proof -
  let ?i = "unat (seqNum packet) mod cur_size s"
  let ?s1 = "note_receive_times (UpdateMissingPackets (store_packet s ?i packet) (seqNum packet))
      packet now_ms"
  from assms(3) obtain q where q: "FindFrames ?s1 (seqNum packet) = Inr q"
    and r: "fst (snd (snd r)) = snd q"
    by (auto simp: insert_at_def split: sum.splits)
  have "sized s" and "0 < cur_size s"
    using assms(1) by (simp_all add: buffer_inv_def is_pow2_pos)
  with assms(2) have "ring_inv (store_packet s ?i packet)"
    by (intro ring_inv_store_packet)
  then have "ring_inv ?s1"
    by (intro ring_inv_keeps [OF _ keeps_seqs_note_receive_times]
          ring_inv_keeps [OF _ keeps_seqs_UpdateMissingPackets])
  with keeps_seqs_FindFrames [OF q] r show ?thesis
    by (auto intro: ring_inv_keeps)
qed

lemma ring_inv_preserved:
  assumes b: "buffer_inv start s" and i: "ring_inv s"
  shows "ring_inv (Clear s)" and "ring_inv (ClearTo s seq)"
    and "InsertPacket s packet now_ms = Inr r \<Longrightarrow> ring_inv (fst (snd (snd r)))"
    and "PaddingReceived s seq = Inr q \<Longrightarrow> ring_inv (snd q)"
proof -
  show "ring_inv (Clear s)"
    using i keeps_seqs_Clear by (rule ring_inv_keeps)
  show "ring_inv (ClearTo s seq)"
    using i keeps_seqs_ClearTo by (rule ring_inv_keeps)
next
  assume "PaddingReceived s seq = Inr q"
  then have "keeps_seqs (UpdateMissingPackets s seq) (snd q)"
    by (simp add: PaddingReceived_def keeps_seqs_FindFrames)
  with keeps_seqs_UpdateMissingPackets have "keeps_seqs s (snd q)"
    by (rule keeps_seqs_trans)
  with i show "ring_inv (snd q)"
    by (rule ring_inv_keeps)
next
  assume ins: "InsertPacket s packet now_ms = Inr r"
  let ?s1 = "note_first_seq_num (OnTimestampReceived s (timestamp packet)) (seqNum packet)"
  have b1: "buffer_inv start ?s1"
    using b keeps_seqs_before_insert(1) by (rule buffer_inv_keeps)
  have i1: "ring_inv ?s1"
    using i keeps_seqs_before_insert(1) by (rule ring_inv_keeps)
  from ins show "ring_inv (fst (snd (snd r)))"
  proof (cases rule: InsertPacket_cases)
    case (dropped t)
    with i show ?thesis
      by (auto simp: drop_packet_def ring_inv_heap intro: ring_inv_keeps)
  next
    case (overflow s2)
    from ring_inv_expand_loop [OF b1 i1 overflow(1)] keeps_seqs_Clear
    have "ring_inv (Clear s2)" by (rule ring_inv_keeps)
    with overflow(2) show ?thesis
      by (simp add: drop_packet_def ring_inv_heap)
  next
    case (grown s2)
    from ring_inv_insert_at [OF buffer_inv_expand_loop [OF b1 grown(1)]
        ring_inv_expand_loop [OF b1 i1 grown(1)] grown(2)]
    show ?thesis .
  next
    case plain
    from plain(2) have "insert_at ?s1 (unat (seqNum packet) mod cur_size ?s1) packet now_ms = Inr r"
      by simp
    from ring_inv_insert_at [OF b1 i1 this] show ?thesis .
  qed
qed

section \<open>Termination of FindFrames\<close>

text \<open>
  Every loop of \<open>FindFrames\<close> is a total function above, with its termination proof.
  The two functions below count what the loops do: \<open>walk_visits\<close> is the number of
  slots that the backward walk examines (the executions of the body of its
  \<open>while (true)\<close>), and \<open>scan_iterations\<close> is the number of times that the body of the
  \<open>for\<close> loop is entered, also when the loop is left by a \<open>return\<close> or a fatal error.
\<close>

function walk_visits :: "bool \<Rightarrow> 32 word \<Rightarrow> PacketBuffer \<Rightarrow> FrameScan \<Rightarrow> nat" where
  "walk_visits is_h264 ts s sc =
     (case walk_step is_h264 ts s sc of
        WalkAbort s1 \<Rightarrow> 1
      | WalkBreak s1 sc1 \<Rightarrow> 1
      | WalkCont s1 sc1 \<Rightarrow> 1 + walk_visits is_h264 ts s1 sc1)"
  by pat_completeness auto
termination
proof (relation "measure (\<lambda>(is_h264, ts, s, sc).
    unat (word_of_nat (cur_size s) - tested_packets sc - 1))", goal_cases)
  case 1
  show ?case by simp
next
  case (2 is_h264 ts s sc s1 sc1)
  note c = walk_step_cont [OF 2]
  define d :: "64 word" where "d = word_of_nat (cur_size s) - tested_packets sc - 1"
  have "d \<noteq> 0"
  proof
    assume "d = 0"
    then have "word_of_nat (cur_size s) - (tested_packets sc + 1) = 0"
      by (simp add: d_def diff_diff_eq)
    then have "word_of_nat (cur_size s) = tested_packets sc + 1"
      by (simp only: right_minus_eq)
    with c show False by simp
  qed
  then have "unat (d - 1) = unat d - 1" and "unat d \<noteq> 0"
    by (simp_all add: unat_minus_one unat_eq_zero)
  then have lt: "unat (d - 1) < unat d" by arith
  have e: "word_of_nat (cur_size s) - (tested_packets sc + 1) - 1 = d - 1"
    by (simp add: d_def)
  have "unat (word_of_nat (cur_size s) - (tested_packets sc + 1) - 1 :: 64 word) < unat d"
    unfolding e by (rule lt)
  then show ?case using c by (simp add: d_def)
qed

declare walk_visits.simps [simp del]

function scan_iterations :: "nat \<Rightarrow> 16 word \<Rightarrow> RtpFrameObject list \<Rightarrow> PacketBuffer \<Rightarrow> nat" where
  "scan_iterations i seq found s =
     (if i < cur_size s \<and> PotentialNewFrame s seq
      then case FindFrames_body seq found s of
             StepReturn s' \<Rightarrow> 1
           | StepCrash e \<Rightarrow> 1
           | StepNext found' s' \<Rightarrow> 1 + scan_iterations (i + 1) (seq + 1) found' s'
      else 0)"
  by pat_completeness auto
termination
  by (relation "measure (\<lambda>(i, seq, found, s). cur_size s - i)")
     (auto dest: cur_size_FindFrames_body)

declare scan_iterations.simps [simp del]

lemma walk_visits_bound:
  "unat (tested_packets sc) < cur_size s \<Longrightarrow> cur_size s < 2 ^ 64
   \<Longrightarrow> walk_visits is_h264 ts s sc + unat (tested_packets sc) \<le> cur_size s"
proof (induction is_h264 ts s sc rule: walk_visits.induct)
  case (1 is_h264 ts s sc)
  show ?case
  proof (cases "walk_step is_h264 ts s sc")
    case (WalkAbort s1)
    then have "walk_visits is_h264 ts s sc = 1"
      by (subst walk_visits.simps) simp
    with "1.prems" show ?thesis by simp
  next
    case (WalkBreak s1 sc1)
    then have "walk_visits is_h264 ts s sc = 1"
      by (subst walk_visits.simps) simp
    with "1.prems" show ?thesis by simp
  next
    case (WalkCont s1 sc1)
    note c = walk_step_cont [OF WalkCont]
    have unf: "walk_visits is_h264 ts s sc = 1 + walk_visits is_h264 ts s1 sc1"
      using WalkCont by (subst walk_visits.simps) simp
    have n: "unat (word_of_nat (cur_size s) :: 64 word) = cur_size s"
      using "1.prems"(2) by (simp add: unat_of_nat)
    have "unat (tested_packets sc) + unat (1 :: 64 word) < 2 ^ LENGTH(64)"
      using "1.prems" by simp
    then have "unat (tested_packets sc + 1) = unat (tested_packets sc) + unat (1 :: 64 word)"
      by (simp only: unat_add_lem)
    then have t: "unat (tested_packets sc1) = unat (tested_packets sc) + 1"
      using c(2) by simp
    have "unat (tested_packets sc1) \<noteq> cur_size s"
    proof
      assume "unat (tested_packets sc1) = cur_size s"
      with n have "unat (tested_packets sc1) = unat (word_of_nat (cur_size s) :: 64 word)"
        by simp
      then have "tested_packets sc1 = word_of_nat (cur_size s)"
        by (simp only: word_unat_eq_iff)
      with c(3) show False by simp
    qed
    with t "1.prems"(1) have lt: "unat (tested_packets sc1) < cur_size s1"
      using c(1) by simp
    have "cur_size s1 < 2 ^ 64" using "1.prems"(2) c(1) by simp
    from "1.IH" [OF WalkCont lt this] unf t c(1) show ?thesis
      by simp
  qed
qed

lemma scan_iterations_bound:
  "scan_iterations i seq found s + i \<le> max i (cur_size s)"
proof (induction i seq found s rule: scan_iterations.induct)
  case (1 i seq found s)
  show ?case
  proof (cases "i < cur_size s \<and> PotentialNewFrame s seq")
    case False
    then have "scan_iterations i seq found s = 0"
      by (subst scan_iterations.simps) auto
    then show ?thesis by simp
  next
    case True
    show ?thesis
    proof (cases "FindFrames_body seq found s")
      case (StepReturn s')
      with True have "scan_iterations i seq found s = 1"
        by (subst scan_iterations.simps) simp
      with True show ?thesis by simp
    next
      case (StepCrash e)
      with True have "scan_iterations i seq found s = 1"
        by (subst scan_iterations.simps) simp
      with True show ?thesis by simp
    next
      case (StepNext found' s')
      with True have unf: "scan_iterations i seq found s
          = 1 + scan_iterations (i + 1) (seq + 1) found' s'"
        by (subst scan_iterations.simps) simp
      have c: "cur_size s' = cur_size s"
        using StepNext by (rule cur_size_FindFrames_body)
      from "1.IH" [OF True StepNext] unf c True show ?thesis
        by simp
    qed
  qed
qed

lemma FindFrames_loop_bound:
  "FindFrames_loop i seq found s = Inr (n, found', s') \<Longrightarrow> n \<le> max i (cur_size s)"
proof (induction i seq found s rule: FindFrames_loop.induct)
  case (1 i seq found s)
  show ?case
  proof (cases "i < cur_size s \<and> PotentialNewFrame s seq")
    case False
    with "1.prems" have "n = i"
      by (subst (asm) FindFrames_loop.simps) auto
    then show ?thesis by simp
  next
    case True
    show ?thesis
    proof (cases "FindFrames_body seq found s")
      case (StepReturn t)
      with True "1.prems" have "n = i"
        by (subst (asm) FindFrames_loop.simps) simp
      then show ?thesis by simp
    next
      case (StepCrash e)
      with True "1.prems" show ?thesis
        by (subst (asm) FindFrames_loop.simps) simp
    next
      case (StepNext found1 s1)
      with True "1.prems" have "FindFrames_loop (i + 1) (seq + 1) found1 s1 = Inr (n, found', s')"
        by (subst (asm) FindFrames_loop.simps) simp
      from "1.IH" [OF True StepNext this] cur_size_FindFrames_body [OF StepNext] True
      show ?thesis by simp
    qed
  qed
qed


text \<open>
  C6. For every buffer state, whatever its slots hold: the body of the \<open>for\<close> loop of
  \<open>FindFrames\<close> is entered at most \<open>size_\<close> times, and when the loop ends normally its
  counter \<open>i\<close> is at most \<open>size_\<close>; and a backward walk, which starts with
  \<open>tested_packets = 0\<close> in a buffer of \<open>size_ > 0\<close> slots (\<open>size_\<close> is a \<open>size_t\<close>, below
  \<open>2^64\<close>), examines at most \<open>size_\<close> slots before it stops.
\<close>

theorem FindFrames_bounded:
  "scan_iterations 0 seq [] s \<le> cur_size s
   \<and> (\<forall>n found s'. FindFrames_loop 0 seq [] s = Inr (n, found, s') \<longrightarrow> n \<le> cur_size s)
   \<and> (tested_packets sc = 0 \<and> 0 < cur_size s \<and> cur_size s < 2 ^ 64
        \<longrightarrow> walk_visits is_h264 ts s sc \<le> cur_size s)"
proof (intro conjI allI impI)
  from scan_iterations_bound [of 0 seq "[]" s]
  show "scan_iterations 0 seq [] s \<le> cur_size s" by simp
next
  fix n found s'
  assume "FindFrames_loop 0 seq [] s = Inr (n, found, s')"
  from FindFrames_loop_bound [OF this] show "n \<le> cur_size s" by simp
next
  assume a: "tested_packets sc = 0 \<and> 0 < cur_size s \<and> cur_size s < 2 ^ 64"
  then have "unat (tested_packets sc) < cur_size s" and "cur_size s < 2 ^ 64"
    by simp_all
  from walk_visits_bound [OF this, of is_h264 ts] a
  show "walk_visits is_h264 ts s sc \<le> cur_size s" by simp
qed

theorem FindFrames_bounded_witness:
  "FindFrames_loop 0 1 [] two_packets = Inr (1, [], set_continuous two_packets 1)
   \<and> scan_iterations 0 1 [] two_packets = 1
   \<and> 1 \<le> cur_size two_packets
   \<and> tested_packets (init_scan two_packets 1 1) = 0
   \<and> 0 < cur_size two_packets \<and> cur_size two_packets < 2 ^ 64
   \<and> walk_visits False 7 two_packets (init_scan two_packets 1 1) = 2
   \<and> walk_visits False 7 two_packets (init_scan two_packets 1 1) \<le> cur_size two_packets"
proof -
  have e: "FindFrames_loop 0 1 [] two_packets = Inr (1, [], set_continuous two_packets 1)"
    and i: "scan_iterations 0 1 [] two_packets = 1"
    and w: "walk_visits False 7 two_packets (init_scan two_packets 1 1) = 2"
    by code_simp+
  have t: "tested_packets (init_scan two_packets 1 1) = 0"
    by (simp add: init_scan_def)
  have c: "cur_size two_packets = 2"
    by (simp add: two_packets_def set_continuous_def store_packet_def new_PacketBuffer_def)
  note b = FindFrames_bounded [of 1 two_packets "init_scan two_packets 1 1" False 7]
  from b e have "1 \<le> cur_size two_packets" by blast
  moreover from b t c
  have "walk_visits False 7 two_packets (init_scan two_packets 1 1) \<le> cur_size two_packets"
    by simp
  ultimately show ?thesis
    using e i w t c by simp
qed

section \<open>Malformed H.264 packets in the backward walk\<close>

text \<open>
  What makes the walk give up on a packet: \<open>absl::get_if\<close> finds no H.264 header, or
  \<open>nalus_length >= kMaxNalusPerPacket\<close>.
\<close>

definition malformed_h264 :: "VCMPacket \<Rightarrow> bool" where
  "malformed_h264 p =
     (case video_type_header (video_header p) of
        H264Header h \<Rightarrow> kMaxNalusPerPacket \<le> nalus_length h
      | _ \<Rightarrow> True)"

text \<open>
  \<open>walk_reaches is_h264 ts s sc s' sc'\<close>: the walk that starts in the state \<open>s\<close> with the
  locals \<open>sc\<close> comes, after some iterations, to the top of its loop in the state \<open>s'\<close>
  with the locals \<open>sc'\<close>; the slot at \<open>start_index sc'\<close> is then the next one visited.
\<close>

inductive walk_reaches :: "bool \<Rightarrow> 32 word \<Rightarrow> PacketBuffer \<Rightarrow> FrameScan \<Rightarrow> PacketBuffer \<Rightarrow> FrameScan \<Rightarrow> bool"
  for is_h264 :: bool and ts :: "32 word" where
  here: "walk_reaches is_h264 ts s sc s sc"
| step: "walk_step is_h264 ts s sc = WalkCont s1 sc1 \<Longrightarrow> walk_reaches is_h264 ts s1 sc1 s2 sc2
         \<Longrightarrow> walk_reaches is_h264 ts s sc s2 sc2"

text \<open>
  \<open>same_but_marks s s'\<close>: the states differ at most in the \<open>frame_created\<close> marks of
  their slots.
\<close>

definition same_but_marks :: "PacketBuffer \<Rightarrow> PacketBuffer \<Rightarrow> bool" where
  "same_but_marks s s' =
     (s'\<lparr>sequence_buffer := sequence_buffer s\<rparr> = s \<and>
      map (\<lambda>c. c\<lparr>frame_created := False\<rparr>) (sequence_buffer s')
        = map (\<lambda>c. c\<lparr>frame_created := False\<rparr>) (sequence_buffer s))"

lemma same_but_marks_refl [simp]: "same_but_marks s s"
  by (simp add: same_but_marks_def)

lemma same_but_marks_trans:
  "same_but_marks s t \<Longrightarrow> same_but_marks t u \<Longrightarrow> same_but_marks s u"
proof -
  assume a: "same_but_marks s t" and b: "same_but_marks t u"
  from b have "u\<lparr>sequence_buffer := sequence_buffer t\<rparr> = t"
    by (simp add: same_but_marks_def)
  then have "(u\<lparr>sequence_buffer := sequence_buffer t\<rparr>)\<lparr>sequence_buffer := sequence_buffer s\<rparr>
      = t\<lparr>sequence_buffer := sequence_buffer s\<rparr>"
    by (simp only:)
  then have "u\<lparr>sequence_buffer := sequence_buffer s\<rparr> = t\<lparr>sequence_buffer := sequence_buffer s\<rparr>"
    by simp
  with a b show ?thesis
    by (simp add: same_but_marks_def)
qed

lemma map_update_same:
  assumes "f (g (xs ! i)) = f (xs ! i)"
  shows "map f (xs[i := g (xs ! i)]) = map f xs"
proof (cases "i < length xs")
  case True
  have "map f (xs[i := g (xs ! i)]) = (map f xs)[i := f (g (xs ! i))]"
    by (rule map_update)
  also have "\<dots> = (map f xs)[i := map f xs ! i]"
    using True assms by simp
  also have "\<dots> = map f xs"
    by (rule list_update_id)
  finally show ?thesis .
next
  case False
  then have "xs[i := g (xs ! i)] = xs"
    by (intro list_update_beyond) simp
  then show ?thesis by (simp only:)
qed

lemma same_but_marks_set_frame_created: "same_but_marks s (set_frame_created s i b)"
  by (simp add: same_but_marks_def set_frame_created_def map_update_same)

lemma walk_step_abort_iff:
  "(\<exists>s1. walk_step is_h264 ts s sc = WalkAbort s1)
     \<longleftrightarrow> is_h264 \<and> \<not> is_h264_keyframe sc \<and> malformed_h264 (data_buffer s ! start_index sc)"
  by (auto simp: walk_step_def h264_step_def h264_scan_def malformed_h264_def visit_locals_def
        set_frame_created_def Let_def
      split: RTPVideoTypeHeader.splits option.splits if_splits)

lemma walk_step_abort_state:
  "walk_step is_h264 ts s sc = WalkAbort s1 \<Longrightarrow> s1 = set_frame_created s (start_index sc) True"
  by (auto simp: walk_step_def Let_def split: option.splits if_splits)

lemma walk_step_cont_state:
  "walk_step is_h264 ts s sc = WalkCont s1 sc1 \<Longrightarrow> s1 = set_frame_created s (start_index sc) True"
  by (auto simp: walk_step_def Let_def split: option.splits if_splits)

lemma walk_reaches_same:
  "walk_reaches is_h264 ts s sc s2 sc2 \<Longrightarrow> same_but_marks s s2"
proof (induction rule: walk_reaches.induct)
  case (here s sc)
  show ?case by simp
next
  case (step s sc s1 sc1 s2 sc2)
  from walk_step_cont_state [OF step.hyps(1)] have "same_but_marks s s1"
    by (simp add: same_but_marks_set_frame_created)
  with step.IH show ?case
    by (blast intro: same_but_marks_trans)
qed

lemma find_frame_start_reaches:
  "walk_reaches is_h264 ts s sc s2 sc2
   \<Longrightarrow> find_frame_start is_h264 ts s sc = find_frame_start is_h264 ts s2 sc2"
proof (induction rule: walk_reaches.induct)
  case (here s sc)
  show ?case by simp
next
  case (step s sc s1 sc1 s2 sc2)
  from step.hyps(1) have "find_frame_start is_h264 ts s sc = find_frame_start is_h264 ts s1 sc1"
    by (subst find_frame_start.simps) simp
  with step.IH show ?case by simp
qed

lemma find_frame_start_abort:
  assumes "walk_reaches is_h264 ts s sc s2 sc2"
    and "is_h264" and "\<not> is_h264_keyframe sc2"
    and "malformed_h264 (data_buffer s2 ! start_index sc2)"
  shows "find_frame_start is_h264 ts s sc = ScanAbort (set_frame_created s2 (start_index sc2) True)"
proof -
  from assms(2-4) obtain s3 where a: "walk_step is_h264 ts s2 sc2 = WalkAbort s3"
    using walk_step_abort_iff [of is_h264 ts s2 sc2] by blast
  then have "find_frame_start is_h264 ts s2 sc2 = ScanAbort s3"
    by (subst find_frame_start.simps) simp
  with walk_step_abort_state [OF a] find_frame_start_reaches [OF assms(1)]
  show ?thesis by simp
qed


lemma same_but_marks_fields:
  assumes "same_but_marks s s'"
  shows "data_buffer s' = data_buffer s" and "heap s' = heap s" and "cur_size s' = cur_size s"
    and "missing_packets s' = missing_packets s"
    and "map used (sequence_buffer s') = map used (sequence_buffer s)"
    and "map seq_num (sequence_buffer s') = map seq_num (sequence_buffer s)"
proof -
  from assms have eq: "s'\<lparr>sequence_buffer := sequence_buffer s\<rparr> = s"
    and m: "map (\<lambda>c. c\<lparr>frame_created := False\<rparr>) (sequence_buffer s')
        = map (\<lambda>c. c\<lparr>frame_created := False\<rparr>) (sequence_buffer s)"
    by (simp_all add: same_but_marks_def)
  have "data_buffer (s'\<lparr>sequence_buffer := sequence_buffer s\<rparr>) = data_buffer s"
    by (simp only: eq)
  then show "data_buffer s' = data_buffer s" by simp
  have "heap (s'\<lparr>sequence_buffer := sequence_buffer s\<rparr>) = heap s"
    by (simp only: eq)
  then show "heap s' = heap s" by simp
  have "cur_size (s'\<lparr>sequence_buffer := sequence_buffer s\<rparr>) = cur_size s"
    by (simp only: eq)
  then show "cur_size s' = cur_size s" by simp
  have "missing_packets (s'\<lparr>sequence_buffer := sequence_buffer s\<rparr>) = missing_packets s"
    by (simp only: eq)
  then show "missing_packets s' = missing_packets s" by simp
  from m have "map used (map (\<lambda>c. c\<lparr>frame_created := False\<rparr>) (sequence_buffer s'))
      = map used (map (\<lambda>c. c\<lparr>frame_created := False\<rparr>) (sequence_buffer s))"
    by (simp only:)
  then show "map used (sequence_buffer s') = map used (sequence_buffer s)"
    by (simp add: comp_def)
  from m have "map seq_num (map (\<lambda>c. c\<lparr>frame_created := False\<rparr>) (sequence_buffer s'))
      = map seq_num (map (\<lambda>c. c\<lparr>frame_created := False\<rparr>) (sequence_buffer s))"
    by (simp only:)
  then show "map seq_num (sequence_buffer s') = map seq_num (sequence_buffer s)"
    by (simp add: comp_def)
qed

text \<open>An H.264 packet without the H.264 header (\<open>video_type_header\<close> is empty).\<close>

definition headerless_packet :: "16 word \<Rightarrow> 32 word \<Rightarrow> bool \<Rightarrow> bool \<Rightarrow> VCMPacket" where
  "headerless_packet seq ts is_first is_last =
     default_VCMPacket\<lparr>seqNum := seq, timestamp := ts,
       video_header := default_RTPVideoHeader\<lparr>codec := kVideoCodecH264,
         is_first_packet_in_frame := is_first, is_last_packet_in_frame := is_last\<rparr>\<rparr>"

text \<open>
  The states of a new buffer of four slots after \<open>InsertPacket\<close>, at time 0, of a first
  packet 0 with timestamp 100: one without the H.264 header, one with a slice.
\<close>

definition one_headerless :: PacketBuffer where
  "one_headerless =
     (set_continuous
        (store_packet (new_PacketBuffer 4 4 False) 0 (headerless_packet 0 100 True False)) 0)
       \<lparr>first_seq_num := 0, first_packet_received := True,
        last_received_packet_ms := Some 0, newest_inserted_seq_num := Some 0,
        unique_frames_seen := 1, rtp_timestamps_history_set := {100},
        rtp_timestamps_history_queue := [100]\<rparr>"

definition one_slice :: PacketBuffer where
  "one_slice =
     (set_continuous
        (store_packet (new_PacketBuffer 4 4 False) 0 (h264_packet 0 100 True False [kSlice])) 0)
       \<lparr>first_seq_num := 0, first_packet_received := True,
        last_received_packet_ms := Some 0, newest_inserted_seq_num := Some 0,
        unique_frames_seen := 1, rtp_timestamps_history_set := {100},
        rtp_timestamps_history_queue := [100]\<rparr>"

text \<open>
  C4 as stated fails on the code. The header is looked at only while the frame has not
  been identified as a key frame: after the first packet 0 without a header, the last
  packet 1 with an IDR unit makes the walk a key frame's before it visits packet 0, and
  the frame of the packets 0 and 1 is emitted. And where the walk does abort (first packet
  0 with a slice, last packet 1 without a header), no frame is emitted, but the visited
  slot 1 keeps the \<open>frame_created\<close> mark that the walk has set.
\<close>

theorem FindFrames_malformed_counterexample:
  "InsertPacket (new_PacketBuffer 4 4 False) (headerless_packet 0 100 True False) 0
     = Inr (True, headerless_packet 0 100 True False, one_headerless, [])
   \<and> malformed_h264 (headerless_packet 0 100 True False)
   \<and> map_sum id (map frame_first_seq_num \<circ> snd \<circ> snd \<circ> snd)
        (InsertPacket one_headerless (h264_packet 1 100 False True [kIdr]) 0) = Inr [0]
   \<and> map_sum id (map frame_last_seq_num \<circ> snd \<circ> snd \<circ> snd)
        (InsertPacket one_headerless (h264_packet 1 100 False True [kIdr]) 0) = Inr [1]
   \<and> InsertPacket (new_PacketBuffer 4 4 False) (h264_packet 0 100 True False [kSlice]) 0
     = Inr (True, h264_packet 0 100 True False [kSlice], one_slice, [])
   \<and> malformed_h264 (headerless_packet 1 100 False True)
   \<and> map_sum id (snd \<circ> snd \<circ> snd)
        (InsertPacket one_slice (headerless_packet 1 100 False True) 0) = Inr []
   \<and> map_sum id (map frame_created \<circ> sequence_buffer \<circ> fst \<circ> snd \<circ> snd)
        (InsertPacket one_slice (headerless_packet 1 100 False True) 0)
       = Inr [False, True, False, False]"
  by code_simp

text \<open>
  C4, amended. In an iteration of the loop of \<open>FindFrames\<close> at a packet that ends an
  H.264 frame: when the backward walk comes to a packet whose H.264 header is absent or has
  \<open>kMaxNalusPerPacket\<close> or more NAL units before it has identified the frame as a key
  frame, \<open>FindFrames\<close> ends there. It returns normally, with exactly the frames found
  before in the call, and the buffer is as it was at the start of the iteration's walk
  but for \<open>frame_created\<close> marks: no slot is cleared and no payload freed.
\<close>

theorem FindFrames_malformed_abort:
  assumes "i < cur_size s" and "PotentialNewFrame s seq"
    and "frame_end (sequence_buffer s ! (unat seq mod cur_size s))"
    and "codec (video_header (data_buffer s ! (unat seq mod cur_size s))) = kVideoCodecH264"
    and "walk_reaches True (timestamp (data_buffer s ! (unat seq mod cur_size s)))
           (set_continuous s (unat seq mod cur_size s))
           (init_scan (set_continuous s (unat seq mod cur_size s)) (unat seq mod cur_size s) seq)
           s2 sc2"
    and "\<not> is_h264_keyframe sc2"
    and "malformed_h264 (data_buffer s ! start_index sc2)"
  shows "\<exists>s'. FindFrames_loop i seq found s = Inr (i, found, s')
            \<and> same_but_marks (set_continuous s (unat seq mod cur_size s)) s'"
proof -
  let ?idx = "unat seq mod cur_size s"
  let ?s1 = "set_continuous s ?idx"
  let ?s' = "set_frame_created s2 (start_index sc2) True"
  have fe: "frame_end (sequence_buffer ?s1 ! ?idx)"
    using assms(3) by (simp add: set_continuous_def nth_update_field)
  have db: "data_buffer ?s1 = data_buffer s" and cs: "cur_size ?s1 = cur_size s"
    by (simp_all add: set_continuous_def)
  note w = walk_reaches_same [OF assms(5)]
  have "data_buffer s2 = data_buffer s"
    using same_but_marks_fields(1) [OF w] db by simp
  with assms(7) have "malformed_h264 (data_buffer s2 ! start_index sc2)"
    by simp
  from find_frame_start_abort [OF assms(5) TrueI assms(6) this]
  have ab: "find_frame_start True (timestamp (data_buffer s ! ?idx)) ?s1 (init_scan ?s1 ?idx seq)
      = ScanAbort ?s'" .
  have "FindFrames_body seq found s = StepReturn ?s'"
    using fe assms(4) ab by (simp add: FindFrames_body_def Let_def db)
  then have "FindFrames_loop i seq found s = Inr (i, found, ?s')"
    using assms(1,2) by (subst FindFrames_loop.simps) simp
  moreover have "same_but_marks ?s1 ?s'"
    using w same_but_marks_set_frame_created by (rule same_but_marks_trans)
  ultimately show ?thesis by blast
qed

text \<open>
  The buffer \<open>one_headerless\<close> with the last packet 1 of the frame, a slice, stored in
  its slot.
\<close>

definition headerless_then_slice :: PacketBuffer where
  "headerless_then_slice = store_packet one_headerless 1 (h264_packet 1 100 False True [kSlice])"

theorem FindFrames_malformed_abort_witness:
  "0 < cur_size headerless_then_slice \<and> PotentialNewFrame headerless_then_slice 1
   \<and> frame_end (sequence_buffer headerless_then_slice ! 1)
   \<and> codec (video_header (data_buffer headerless_then_slice ! 1)) = kVideoCodecH264
   \<and> malformed_h264 (data_buffer headerless_then_slice ! 0)
   \<and> (\<exists>s2 sc2. walk_reaches True 100 (set_continuous headerless_then_slice 1)
                   (init_scan (set_continuous headerless_then_slice 1) 1 1) s2 sc2
               \<and> start_index sc2 = 0 \<and> \<not> is_h264_keyframe sc2)
   \<and> (\<exists>s'. FindFrames_loop 0 1 [] headerless_then_slice = Inr (0, [], s')
          \<and> same_but_marks (set_continuous headerless_then_slice 1) s')"
proof -
  let ?s = headerless_then_slice
  let ?s1 = "set_continuous ?s 1"
  have idx: "unat (1 :: 16 word) mod cur_size ?s = 1" and ts: "timestamp (data_buffer ?s ! 1) = 100"
    by code_simp+
  have a: "0 < cur_size ?s" "PotentialNewFrame ?s 1" "frame_end (sequence_buffer ?s ! 1)"
    "codec (video_header (data_buffer ?s ! 1)) = kVideoCodecH264"
    "malformed_h264 (data_buffer ?s ! 0)"
    by code_simp+
  have "case walk_step True 100 ?s1 (init_scan ?s1 1 1) of
          WalkCont s2 sc2 \<Rightarrow> start_index sc2 = 0 \<and> \<not> is_h264_keyframe sc2
        | _ \<Rightarrow> False"
    by code_simp
  then obtain s2 sc2 where c: "walk_step True 100 ?s1 (init_scan ?s1 1 1) = WalkCont s2 sc2"
    and sc2: "start_index sc2 = 0" "\<not> is_h264_keyframe sc2"
    by (cases "walk_step True 100 ?s1 (init_scan ?s1 1 1)") simp_all
  from c walk_reaches.here have r: "walk_reaches True 100 ?s1 (init_scan ?s1 1 1) s2 sc2"
    by (rule walk_reaches.step)
  have m: "malformed_h264 (data_buffer ?s ! start_index sc2)"
    using a(5) sc2(1) by simp
  note t = FindFrames_malformed_abort [where i = 0 and s = ?s and seq = 1 and ?s2.0 = s2
      and ?sc2.0 = sc2 and found = "[]", unfolded idx ts]
  from t [OF a(1-4) r sc2(2) m]
  have "\<exists>s'. FindFrames_loop 0 1 [] ?s = Inr (0, [], s') \<and> same_but_marks ?s1 s'" .
  with a r sc2 show ?thesis
    by blast
qed

end
